theory Spec2Isabelle
  imports Main "HOL-Library.AList"
begin

section \<open>Path utilities (utils.ts)\<close>

text \<open>
  JavaScript strings are modelled as \<^typ>\<open>string\<close>. \<open>split_dot s\<close> is \<^verbatim>\<open>s.split('.')\<close>
  (the empty string splits into one empty segment) and \<open>join_dot p\<close> is
  \<^verbatim>\<open>p.join('.')\<close>.
\<close>

fun split_dot :: "string \<Rightarrow> string list" where
  "split_dot [] = [[]]"
| "split_dot (c # cs) =
     (if c = CHR ''.'' then [] # split_dot cs
      else (case split_dot cs of
              [] \<Rightarrow> [[c]]
            | w # ws \<Rightarrow> (c # w) # ws))"

fun join_dot :: "string list \<Rightarrow> string" where
  "join_dot [] = []"
| "join_dot [w] = w"
| "join_dot (w # v # ws) = w @ CHR ''.'' # join_dot (v # ws)"

text \<open>\<^verbatim>\<open>namespace ? `${namespace}.${key}` : key\<close>: both \<^verbatim>\<open>null\<close> and the empty
  string are falsy.\<close>

fun concatNamespaceWithKey :: "string option \<Rightarrow> string \<Rightarrow> string" where
  "concatNamespaceWithKey None key = key"
| "concatNamespaceWithKey (Some ns) key = (if ns = [] then key else ns @ CHR ''.'' # key)"

text \<open>The loop \<^verbatim>\<open>for (let i = index + 1; i < path.length; ++i)\<close> pushing
  \<^verbatim>\<open>[path.slice(0, i).join('.'), path.slice(i).join('.')]\<close>.\<close>

definition collectNamespaceKeyPairs :: "string list \<Rightarrow> nat \<Rightarrow> (string \<times> string) list" where
  "collectNamespaceKeyPairs path index =
     map (\<lambda>i. (join_dot (take i path), join_dot (drop i path))) [index + 1 ..< length path]"

definition splitKeyByNamespace :: "string \<Rightarrow> (string \<times> string) list" where
  "splitKeyByNamespace fullKey = collectNamespaceKeyPairs (split_dot fullKey) 0"

definition splitKeyIntoParts :: "string \<Rightarrow> string list" where
  "splitKeyIntoParts fullKey =
     map (\<lambda>i. join_dot (take (i + 1) (split_dot fullKey))) [0 ..< length (split_dot fullKey)]"

text \<open>The regular expression \<^verbatim>\<open>/(\.\.)|^\.|\.$/\<close>: two consecutive dots anywhere, a
  leading dot, or a trailing dot.\<close>

fun has_dotdot :: "string \<Rightarrow> bool" where
  "has_dotdot (a # b # cs) = ((a = CHR ''.'' \<and> b = CHR ''.'') \<or> has_dotdot (b # cs))"
| "has_dotdot _ = False"

definition reTestNamespacePathError :: "string \<Rightarrow> bool" where
  "reTestNamespacePathError s =
     (has_dotdot s \<or> (s \<noteq> [] \<and> hd s = CHR ''.'') \<or> (s \<noteq> [] \<and> last s = CHR ''.''))"

definition testNamespacePath :: "string \<Rightarrow> bool" where
  "testNamespacePath name = (name \<noteq> [] \<and> \<not> reTestNamespacePathError name)"

text \<open>\<^verbatim>\<open>s.indexOf('.')\<close>; \<open>None\<close> stands for \<^verbatim>\<open>-1\<close>.\<close>

fun indexOf_dot :: "string \<Rightarrow> nat option" where
  "indexOf_dot [] = None"
| "indexOf_dot (c # cs) =
     (if c = CHR ''.'' then Some 0 else map_option Suc (indexOf_dot cs))"

section \<open>Errors and collaborator calls (errors.ts, events.ts)\<close>

text \<open>One constructor per entry of \<^verbatim>\<open>errorMessages\<close>, with the arguments it is called with.\<close>

datatype error =
    UnregisteredLocaleError string
  | NamespaceError string
  | KeyError "string option" string
  | ValueError "string option" string
  | IntersectionNsError string string string
  | IntersectionError "string option" string string
  | UnregisteredKeyError "string option" string
  | CircularDependencyError "string option" string string string

text \<open>
  The calls the engine makes to its collaborators, in order: \<^verbatim>\<open>errorHandle(e)\<close>,
  \<^verbatim>\<open>events.emitLocale(l)\<close>, \<^verbatim>\<open>events.emitKey(namespace, key)\<close>, and the
  \<^verbatim>\<open>console.error(e)\<close> of the \<^verbatim>\<open>catch\<close> block of \<^verbatim>\<open>Emitter.emit\<close>. Listeners
  registered by callers are outside the model; the listeners the engine installs itself for
  borrowed keys are part of the state below.
\<close>

datatype effect =
    Report error
  | EmitLocale string
  | EmitKey string string
  | ConsoleError

section \<open>Data model (base.ts)\<close>

text \<open>
  \<^verbatim>\<open>{ t: Map<TLocale, TValue> } | { t: null, k: string }\<close>. A JavaScript \<^verbatim>\<open>Map\<close>
  keeps insertion order and \<^verbatim>\<open>set\<close> on a present key replaces the value in place:
  an association list with \<^const>\<open>AList.update\<close>.
\<close>

datatype 'v key_entry =
    Direct "(string \<times> 'v) list"
  | Borrow string

text \<open>The closure \<^verbatim>\<open>ls\<close> of \<^verbatim>\<open>_setExternalKey\<close> captures the registry, the local
  key and \<^verbatim>\<open>partKey\<close>. A registry holds at most one live listener per key, so the
  captured values identify the closure.\<close>

datatype listener = Listener (l_owner: string) (l_key: string) (l_partKey: string)

text \<open>A registry object is identified by its namespace: \<^verbatim>\<open>register\<close> creates at most
  one registry per namespace and never removes one.\<close>

record 'v registry =
  r_namespace :: string
  keyValue :: "(string \<times> 'v key_entry) list"
  externalListeners :: "(string \<times> string \<times> listener) list"

text \<open>
  The mutable fields of \<^verbatim>\<open>SharedSingleton\<close>. \<open>namespaces\<close> keeps the registry of each
  entry of \<^verbatim>\<open>_namespaces\<close> (an entry is only ever created by \<^verbatim>\<open>register\<close>, with
  its registry); \<open>events\<close> is \<^verbatim>\<open>EventEmitter._namespace\<close> restricted to the borrow
  listeners.
\<close>

record 'v state =
  namespaces :: "(string \<times> 'v registry) list"
  cache :: "(string \<times> 'v) list"
  errorKeys :: "string list"
  s_locale :: string
  events :: "(string \<times> listener list) list"

text \<open>
  The read-only configuration: \<^verbatim>\<open>_defaultLocale\<close>, \<^verbatim>\<open>_isSupportedLocale\<close>, the
  abstract \<^verbatim>\<open>getDefaultValue()\<close>, and the JavaScript truthiness of a value of the type
  parameter \<^verbatim>\<open>TValue\<close> (for \<^verbatim>\<open>TValue = string\<close>: being non-empty).
\<close>

record 'v config =
  defaultLocale :: string
  isSupportedLocale :: "string \<Rightarrow> bool"
  getDefaultValue :: 'v
  truthy :: "'v \<Rightarrow> bool"

text \<open>\<^verbatim>\<open>TVisitedI18n\<close>; the map is keyed by the registry, here by its namespace.\<close>

record visitedI18n =
  v_namespace :: "string option"
  v_key :: string
  visited :: "(string \<times> string list) list"
  v_error :: bool

definition init :: "string \<Rightarrow> 'v state" where
  "init l = \<lparr>namespaces = [], cache = [], errorKeys = [], s_locale = l, events = []\<rparr>"

section \<open>Value resolution\<close>

text \<open>
  \<^verbatim>\<open>found.t.get(locale) ?? (locale !== defaultLocale ? found.t.get(defaultLocale) : null)
  ?? found.t.values().next().value\<close>
\<close>

definition selectValue :: "'v config \<Rightarrow> (string \<times> 'v) list \<Rightarrow> string \<Rightarrow> 'v option" where
  "selectValue cfg t loc =
     (case map_of t loc of
        Some v \<Rightarrow> Some v
      | None \<Rightarrow>
          (case (if loc \<noteq> defaultLocale cfg then map_of t (defaultLocale cfg) else None) of
             Some v \<Rightarrow> Some v
           | None \<Rightarrow> (case t of [] \<Rightarrow> None | (l, v) # rest \<Rightarrow> Some v)))"

text \<open>
  \<open>findValue\<close> is \<^verbatim>\<open>SharedSingleton.findValue\<close>, \<open>findLoop\<close> its \<^verbatim>\<open>for\<close> loop over
  the candidate pairs, and \<open>registryGetValue\<close> is
  \<^verbatim>\<open>I18nRegistry[privateI18nRegistryGetValue]\<close>. The two methods call each other; each
  takes the other as its first argument (\<open>findv\<close> is \<^verbatim>\<open>this._shared.findValue\<close>,
  \<open>getv\<close> is \<^verbatim>\<open>registry[privateI18nRegistryGetValue]\<close>) and \<open>findValue\<close> ties the
  knot. The recursion through borrowed keys is not structural: the first argument of
  \<open>findValue\<close> is fuel, one unit spent on each call, and \<open>None\<close> means that the fuel ran
  out. A result carries the updated context, the errors reported, and the value found
  with the namespace of the registry that held it.
\<close>

type_synonym 'v found = "(visitedI18n \<times> effect list \<times> ('v \<times> string) option) option"

definition registryGetValue ::
  "(string \<Rightarrow> string \<Rightarrow> visitedI18n \<Rightarrow> 'v found) \<Rightarrow> 'v config \<Rightarrow> 'v registry \<Rightarrow> string \<Rightarrow> string
     \<Rightarrow> visitedI18n \<Rightarrow> 'v found"
where
  "registryGetValue findv cfg this loc localKey ctx =
     (case map_of (keyValue this) localKey of
        None \<Rightarrow> Some (ctx, [], None)
      | Some (Direct t) \<Rightarrow>
          (case selectValue cfg t loc of
             None \<Rightarrow> Some (ctx, [], None)
           | Some v \<Rightarrow>
               if truthy cfg v then Some (ctx, [], Some (v, r_namespace this))
               else Some (ctx, [], None))
      | Some (Borrow k) \<Rightarrow> findv loc k ctx)"

text \<open>The cycle guard of one candidate: the visited list of the registry after the visit,
  or \<open>None\<close> when the local key is already in it.\<close>

definition visitKey :: "visitedI18n \<Rightarrow> string \<Rightarrow> string \<Rightarrow> string list option" where
  "visitKey ctx ns localKey =
     (case map_of (visited ctx) ns of
        None \<Rightarrow> Some [localKey]
      | Some vs \<Rightarrow> if localKey \<in> set vs then None else Some (vs @ [localKey]))"

primrec findLoop ::
  "('v registry \<Rightarrow> string \<Rightarrow> string \<Rightarrow> visitedI18n \<Rightarrow> 'v found) \<Rightarrow> 'v state \<Rightarrow> string
     \<Rightarrow> (string \<times> string) list \<Rightarrow> visitedI18n \<Rightarrow> 'v found"
where
  "findLoop getv st loc [] ctx = Some (ctx, [], None)"
| "findLoop getv st loc (c # rest) ctx =
     (case map_of (namespaces st) (fst c) of
        None \<Rightarrow> findLoop getv st loc rest ctx
      | Some registry \<Rightarrow>
          (case visitKey ctx (fst c) (snd c) of
             None \<Rightarrow>
               (case findLoop getv st loc rest (ctx\<lparr>v_error := True\<rparr>) of
                  None \<Rightarrow> None
                | Some (ctx', tr, r) \<Rightarrow>
                    Some (ctx',
                          Report (CircularDependencyError (v_namespace ctx) (v_key ctx)
                                    (r_namespace registry) (snd c)) # tr,
                          r))
           | Some vs \<Rightarrow>
               (case getv registry loc (snd c)
                       (ctx\<lparr>visited := AList.update (fst c) vs (visited ctx)\<rparr>) of
                  None \<Rightarrow> None
                | Some (ctx1, tr1, Some v) \<Rightarrow> Some (ctx1, tr1, Some v)
                | Some (ctx1, tr1, None) \<Rightarrow>
                    (case findLoop getv st loc rest ctx1 of
                       None \<Rightarrow> None
                     | Some (ctx2, tr2, r) \<Rightarrow> Some (ctx2, tr1 @ tr2, r)))))"

primrec findValue ::
  "nat \<Rightarrow> 'v config \<Rightarrow> 'v state \<Rightarrow> string \<Rightarrow> string \<Rightarrow> visitedI18n \<Rightarrow> 'v found"
where
  "findValue 0 cfg st loc fullKey ctx = None"
| "findValue (Suc n) cfg st loc fullKey ctx =
     findLoop (registryGetValue (findValue n cfg st) cfg) st loc
       (splitKeyByNamespace fullKey) ctx"

section \<open>Change propagation\<close>

text \<open>
  \<^verbatim>\<open>SharedSingleton.changeKey\<close> emits the key event, the borrow listeners it reaches call
  \<^verbatim>\<open>changeKey\<close> again, and nothing but the call stack bounds this recursion: when the
  listeners of two keys call each other, it goes on until the engine throws
  \<^verbatim>\<open>RangeError\<close>. The first argument of \<open>changeKey\<close> is the number of nested calls of
  \<^verbatim>\<open>changeKey\<close> the stack still holds; a call that finds none left throws before it does
  anything, which is the result \<open>None\<close>.

  \<^verbatim>\<open>Emitter.emit\<close> over the borrow listeners of one namespace: the listener installed by
  \<^verbatim>\<open>_setExternalKey\<close> calls \<^verbatim>\<open>changeKey(this._namespace, key)\<close> when the value it
  receives equals its \<^verbatim>\<open>partKey\<close>. \<open>chg\<close> is \<^verbatim>\<open>this._shared.changeKey\<close>. Each
  listener runs inside \<^verbatim>\<open>try { \<dots> } catch (e) { console.error(e) }\<close>: an error thrown by
  the listener is logged and the loop goes on with the next listener.
\<close>

type_synonym 'v changed = "('v state \<times> effect list) option"

primrec emit ::
  "('v state \<Rightarrow> string \<Rightarrow> string \<Rightarrow> 'v changed) \<Rightarrow> listener list \<Rightarrow> string \<Rightarrow> 'v state
     \<Rightarrow> 'v state \<times> effect list"
where
  "emit chg [] val st = (st, [])"
| "emit chg (l # ls) val st =
     (case (if val = l_partKey l
            then (case chg st (l_owner l) (l_key l) of
                    None \<Rightarrow> (st, [ConsoleError])
                  | Some r \<Rightarrow> r)
            else (st, [])) of
        (st1, tr1) \<Rightarrow>
          (case emit chg ls val st1 of
             (st2, tr2) \<Rightarrow> (st2, tr1 @ tr2)))"

text \<open>The loop of \<^verbatim>\<open>emitKey\<close> over the affected namespaces:
  \<^verbatim>\<open>this._namespace.get(ns)?.emit('key', localKey)\<close>.\<close>

primrec emitAffected ::
  "('v state \<Rightarrow> string \<Rightarrow> string \<Rightarrow> 'v changed) \<Rightarrow> (string \<times> string) list \<Rightarrow> 'v state
     \<Rightarrow> 'v state \<times> effect list"
where
  "emitAffected chg [] st = (st, [])"
| "emitAffected chg (c # rest) st =
     (case (case map_of (events st) (fst c) of
              None \<Rightarrow> (st, [])
            | Some ls \<Rightarrow> emit chg ls (snd c) st) of
        (st1, tr1) \<Rightarrow>
          (case emitAffected chg rest st1 of
             (st2, tr2) \<Rightarrow> (st2, tr1 @ tr2)))"

definition emitKey ::
  "('v state \<Rightarrow> string \<Rightarrow> string \<Rightarrow> 'v changed) \<Rightarrow> string \<Rightarrow> string \<Rightarrow> 'v state
     \<Rightarrow> 'v state \<times> effect list"
where
  "emitKey chg namespace key st =
     (case emitAffected chg (splitKeyByNamespace (concatNamespaceWithKey (Some namespace) key)) st of
        (st', tr) \<Rightarrow> (st', EmitKey namespace key # tr))"

text \<open>\<^verbatim>\<open>SharedSingleton.changeKey\<close>. \<^verbatim>\<open>_errorKeys\<close> is a \<^verbatim>\<open>Set\<close>: a list without
  duplicates. With at least one call left on the stack \<open>changeKey\<close> returns: the errors of
  the calls nested in it end in the \<^verbatim>\<open>catch\<close> blocks of \<open>emit\<close>.\<close>

primrec changeKey :: "nat \<Rightarrow> 'v state \<Rightarrow> string \<Rightarrow> string \<Rightarrow> 'v changed" where
  "changeKey 0 st namespace key = None"
| "changeKey (Suc n) st namespace key =
     Some (emitKey (changeKey n) namespace key
             (st\<lparr>errorKeys :=
                   removeAll (concatNamespaceWithKey (Some namespace) key) (errorKeys st)\<rparr>))"

definition offKey :: "'v state \<Rightarrow> string \<Rightarrow> listener \<Rightarrow> 'v state" where
  "offKey st ns l =
     (case map_of (events st) ns of
        None \<Rightarrow> st
      | Some ls \<Rightarrow> st\<lparr>events := AList.update ns (remove1 l ls) (events st)\<rparr>)"

definition onKey :: "'v state \<Rightarrow> string \<Rightarrow> listener \<Rightarrow> 'v state" where
  "onKey st ns l =
     (case map_of (events st) ns of
        None \<Rightarrow> st\<lparr>events := AList.update ns [l] (events st)\<rparr>
      | Some ls \<Rightarrow>
          if l \<in> set ls then st else st\<lparr>events := AList.update ns (ls @ [l]) (events st)\<rparr>)"

section \<open>The shared singleton\<close>

definition changeLocale :: "'v config \<Rightarrow> 'v state \<Rightarrow> string \<Rightarrow> 'v state \<times> string \<times> effect list" where
  "changeLocale cfg st l =
     (if \<not> isSupportedLocale cfg l then (st, s_locale st, [Report (UnregisteredLocaleError l)])
      else if s_locale st \<noteq> l then (st\<lparr>s_locale := l, cache := []\<rparr>, l, [EmitLocale l])
      else (st, s_locale st, []))"

text \<open>\<^verbatim>\<open>I18nRegistry[privateI18nRegistryGetKeyIfIntersection]\<close>: the first key, in insertion
  order, one of whose cumulative prefixes is \<open>localKey\<close>.\<close>

definition getKeyIfIntersection :: "'v registry \<Rightarrow> string \<Rightarrow> string option" where
  "getKeyIfIntersection this localKey =
     List.find (\<lambda>key. localKey \<in> set (splitKeyIntoParts key)) (map fst (keyValue this))"

text \<open>The loop of \<^verbatim>\<open>register\<close>; the result is the error of the first intersection.
  \<^verbatim>\<open>if (key)\<close> tests a string: the empty string is falsy.\<close>

primrec registerLoop :: "'v state \<Rightarrow> string \<Rightarrow> (string \<times> string) list \<Rightarrow> error option" where
  "registerLoop st fullNamespace [] = None"
| "registerLoop st fullNamespace (c # rest) =
     (case map_of (namespaces st) (fst c) of
        None \<Rightarrow> registerLoop st fullNamespace rest
      | Some registry \<Rightarrow>
          (case getKeyIfIntersection registry (snd c) of
             None \<Rightarrow> registerLoop st fullNamespace rest
           | Some key \<Rightarrow>
               if key \<noteq> [] then Some (IntersectionNsError fullNamespace (r_namespace registry) key)
               else registerLoop st fullNamespace rest))"

text \<open>\<^verbatim>\<open>register\<close> returns the registry (here its namespace) or \<^verbatim>\<open>null\<close>.\<close>

definition register :: "'v state \<Rightarrow> string \<Rightarrow> 'v state \<times> string option \<times> effect list" where
  "register st fullNamespace =
     (case map_of (namespaces st) fullNamespace of
        Some registry \<Rightarrow> (st, Some (r_namespace registry), [])
      | None \<Rightarrow>
          if \<not> testNamespacePath fullNamespace
          then (st, None, [Report (NamespaceError fullNamespace)])
          else (case registerLoop st fullNamespace (splitKeyByNamespace fullNamespace) of
                  Some e \<Rightarrow> (st, None, [Report e])
                | None \<Rightarrow>
                    (st\<lparr>errorKeys := removeAll fullNamespace (errorKeys st),
                        namespaces :=
                          AList.update fullNamespace
                            \<lparr>r_namespace = fullNamespace, keyValue = [], externalListeners = []\<rparr>
                            (namespaces st)\<rparr>,
                     Some fullNamespace, [])))"

definition checkFullKey ::
  "'v state \<Rightarrow> string option \<Rightarrow> string \<Rightarrow> bool \<Rightarrow> 'v state \<times> bool \<times> effect list"
where
  "checkFullKey st namespace key remove =
     (let fullKey = concatNamespaceWithKey namespace key in
      case map_of (namespaces st) fullKey of
        Some registry \<Rightarrow>
          (st, False, [Report (IntersectionError namespace key (r_namespace registry))])
      | None \<Rightarrow>
          if remove
          then (st\<lparr>cache := AList.delete fullKey (cache st),
                   errorKeys := removeAll fullKey (errorKeys st)\<rparr>, True, [])
          else (st, True, []))"

text \<open>\<^verbatim>\<open>Set.add\<close>.\<close>

definition set_add :: "string \<Rightarrow> string list \<Rightarrow> string list" where
  "set_add k ks = (if k \<in> set ks then ks else ks @ [k])"

definition handleKey ::
  "nat \<Rightarrow> 'v config \<Rightarrow> 'v state \<Rightarrow> string \<Rightarrow> string option \<Rightarrow> string
     \<Rightarrow> ('v state \<times> 'v \<times> effect list) option"
where
  "handleKey n cfg st fullKey namespace key =
     (if fullKey \<in> set (errorKeys st) then Some (st, getDefaultValue cfg, [])
      else
        (case findValue n cfg st (s_locale st) fullKey
                \<lparr>v_namespace = namespace, v_key = key, visited = [], v_error = False\<rparr> of
           None \<Rightarrow> None
         | Some (ctx, tr, Some (v, r)) \<Rightarrow>
             Some (st\<lparr>cache := AList.update fullKey v (cache st)\<rparr>, v, tr)
         | Some (ctx, tr, None) \<Rightarrow>
             Some (st\<lparr>errorKeys := set_add fullKey (errorKeys st)\<rparr>, getDefaultValue cfg,
                   tr @ (if \<not> v_error ctx then [Report (UnregisteredKeyError namespace key)]
                         else []))))"

definition getValue ::
  "nat \<Rightarrow> 'v config \<Rightarrow> 'v state \<Rightarrow> string option \<Rightarrow> string \<Rightarrow> ('v state \<times> 'v \<times> effect list) option"
where
  "getValue n cfg st namespace key =
     (let fullKey = concatNamespaceWithKey namespace key in
      case map_of (cache st) fullKey of
        Some v \<Rightarrow> Some (st, v, [])
      | None \<Rightarrow> handleKey n cfg st fullKey namespace key)"

section \<open>The registry\<close>

text \<open>
  A method of a registry takes the namespace \<open>rn\<close> of the registry it is called on, and
  one number \<open>n\<close> that is both the fuel of the search and the room on the stack for
  \<open>changeKey\<close>. The result is \<open>None\<close> when no registry exists under that name (there is no
  object to call the method on), when the fuel of the search runs out, or when \<open>changeKey\<close> is
  called with no call left on the stack (the error leaves the method, which has no
  \<^verbatim>\<open>catch\<close> block).
\<close>

definition setValue ::
  "nat \<Rightarrow> 'v state \<Rightarrow> string \<Rightarrow> string \<Rightarrow> 'v \<Rightarrow> string \<Rightarrow> ('v state \<times> bool \<times> effect list) option"
where
  "setValue n st rn key val loc =
     (case map_of (namespaces st) rn of
        None \<Rightarrow> None
      | Some this \<Rightarrow>
          if \<not> testNamespacePath key
          then Some (st, False, [Report (KeyError (Some (r_namespace this)) key)])
          else
            (case checkFullKey st (Some (r_namespace this)) key True of
               (st1, ok, tr1) \<Rightarrow>
                 if \<not> ok then Some (st1, False, tr1)
                 else
                   (let kv = (case map_of (keyValue this) key of
                                Some (Direct t) \<Rightarrow>
                                  AList.update key (Direct (AList.update loc val t)) (keyValue this)
                              | _ \<Rightarrow> AList.update key (Direct [(loc, val)]) (keyValue this));
                        (st2, els) =
                          (case map_of (externalListeners this) key of
                             None \<Rightarrow> (st1, externalListeners this)
                           | Some (ns, ls) \<Rightarrow>
                               (offKey st1 ns ls, AList.delete key (externalListeners this)));
                        st3 = st2\<lparr>namespaces :=
                                   AList.update rn (this\<lparr>keyValue := kv, externalListeners := els\<rparr>)
                                     (namespaces st2)\<rparr>
                    in case changeKey n st3 (r_namespace this) key of
                         None \<Rightarrow> None
                       | Some (st4, tr4) \<Rightarrow> Some (st4, True, tr1 @ tr4))))"

definition setExternalKey ::
  "nat \<Rightarrow> 'v state \<Rightarrow> string \<Rightarrow> 'v registry \<Rightarrow> string \<Rightarrow> string \<Rightarrow> string \<Rightarrow> string \<Rightarrow> 'v changed"
where
  "setExternalKey n st rn this key externalFullKey ns partKey =
     (let kv = AList.update key (Borrow externalFullKey) (keyValue this);
          st1 = (case map_of (externalListeners this) key of
                   None \<Rightarrow> st
                 | Some (ns', ls') \<Rightarrow> offKey st ns' ls');
          ls = Listener (r_namespace this) key partKey;
          els = AList.update key (ns, ls) (externalListeners this);
          st2 = onKey st1 ns ls;
          st3 = st2\<lparr>namespaces :=
                     AList.update rn (this\<lparr>keyValue := kv, externalListeners := els\<rparr>)
                       (namespaces st2)\<rparr>
      in changeKey n st3 (r_namespace this) key)"

definition use ::
  "nat \<Rightarrow> 'v config \<Rightarrow> 'v state \<Rightarrow> string \<Rightarrow> string \<Rightarrow> string \<Rightarrow> ('v state \<times> bool \<times> effect list) option"
where
  "use n cfg st rn key externalFullKey =
     (case map_of (namespaces st) rn of
        None \<Rightarrow> None
      | Some this \<Rightarrow>
          if map_of (keyValue this) key = Some (Borrow externalFullKey) then Some (st, True, [])
          else if \<not> testNamespacePath key
          then Some (st, False, [Report (KeyError (Some (r_namespace this)) key)])
          else if \<not> testNamespacePath externalFullKey
          then Some (st, False, [Report (KeyError None externalFullKey)])
          else
            (case indexOf_dot externalFullKey of
               None \<Rightarrow> Some (st, False, [Report (KeyError None externalFullKey)])
             | Some index \<Rightarrow>
                 if index < 1 then Some (st, False, [Report (KeyError None externalFullKey)])
                 else
                   (let ns = take index externalFullKey;
                        partKey = drop (index + 1) externalFullKey in
                    if ns = [] \<or> partKey = []
                    then Some (st, False, [Report (KeyError None externalFullKey)])
                    else if concatNamespaceWithKey (Some (r_namespace this)) key = externalFullKey
                    then Some (st, False,
                               [Report (CircularDependencyError None externalFullKey
                                          (r_namespace this) key)])
                    else
                      (case findValue n cfg st (s_locale st) externalFullKey
                              \<lparr>v_namespace = None, v_key = key, visited = [(rn, [key])],
                               v_error = False\<rparr> of
                         None \<Rightarrow> None
                       | Some (ctx, tr, r) \<Rightarrow>
                           if v_error ctx then Some (st, False, tr)
                           else
                             (case checkFullKey st None externalFullKey False of
                                (st1, ok1, tr1) \<Rightarrow>
                                  if \<not> ok1 then Some (st1, False, tr @ tr1)
                                  else
                                    (case checkFullKey st1 (Some (r_namespace this)) key True of
                                       (st2, ok2, tr2) \<Rightarrow>
                                         if \<not> ok2 then Some (st2, False, tr @ tr1 @ tr2)
                                         else
                                           (case setExternalKey n st2 rn this key externalFullKey
                                                   ns partKey of
                                              None \<Rightarrow> None
                                            | Some (st3, tr3) \<Rightarrow>
                                                Some (st3, True, tr @ tr1 @ tr2 @ tr3))))))))"


section \<open>Call sequences\<close>

text \<open>The public operations as data, so that a scenario is a list of calls run from the
  state the constructor builds; each call yields its return value and its collaborator calls.\<close>

datatype 'v call =
    Register string
  | SetValue string string 'v string
  | Use string string string
  | GetValue "string option" string
  | ChangeLocale string

datatype 'v ret = Registry "string option" | Flag bool | Value 'v | Locale string

fun step ::
  "nat \<Rightarrow> 'v config \<Rightarrow> 'v state \<Rightarrow> 'v call \<Rightarrow> ('v state \<times> 'v ret \<times> effect list) option"
where
  "step n cfg st (Register fullNamespace) =
     (case register st fullNamespace of (st', r, tr) \<Rightarrow> Some (st', Registry r, tr))"
| "step n cfg st (SetValue rn key val loc) =
     (case setValue n st rn key val loc of
        None \<Rightarrow> None
      | Some (st', b, tr) \<Rightarrow> Some (st', Flag b, tr))"
| "step n cfg st (Use rn key externalFullKey) =
     (case use n cfg st rn key externalFullKey of
        None \<Rightarrow> None
      | Some (st', b, tr) \<Rightarrow> Some (st', Flag b, tr))"
| "step n cfg st (GetValue namespace key) =
     (case getValue n cfg st namespace key of
        None \<Rightarrow> None
      | Some (st', v, tr) \<Rightarrow> Some (st', Value v, tr))"
| "step n cfg st (ChangeLocale l) =
     (case changeLocale cfg st l of (st', l', tr) \<Rightarrow> Some (st', Locale l', tr))"

primrec run ::
  "nat \<Rightarrow> 'v config \<Rightarrow> 'v state \<Rightarrow> 'v call list \<Rightarrow> ('v state \<times> ('v ret \<times> effect list) list) option"
where
  "run n cfg st [] = Some (st, [])"
| "run n cfg st (c # cs) =
     (case step n cfg st c of
        None \<Rightarrow> None
      | Some (st1, r, tr) \<Rightarrow>
          (case run n cfg st1 cs of
             None \<Rightarrow> None
           | Some (st2, outs) \<Rightarrow> Some (st2, (r, tr) # outs)))"

text \<open>The configuration of the string-valued instantiation (impl.ts): \<^verbatim>\<open>TValue = string\<close>,
  a string is truthy when it is not empty, and an empty list of locales accepts every
  locale.\<close>

definition stringConfig :: "string \<Rightarrow> string list \<Rightarrow> string \<Rightarrow> string config" where
  "stringConfig dl locales dv =
     \<lparr>defaultLocale = dl,
      isSupportedLocale = (\<lambda>l. locales = [] \<or> l \<in> set locales),
      getDefaultValue = dv,
      truthy = (\<lambda>s. s \<noteq> [])\<rparr>"

definition freshContext :: "string option \<Rightarrow> string \<Rightarrow> visitedI18n" where
  "freshContext namespace key =
     \<lparr>v_namespace = namespace, v_key = key, visited = [], v_error = False\<rparr>"

section \<open>Reachable states\<close>

text \<open>The states the public operations produce from the state the constructor builds, with
  any fuel and any room on the stack at each call.\<close>

inductive reachable :: "'v config \<Rightarrow> 'v state \<Rightarrow> bool" for cfg :: "'v config" where
  start: "reachable cfg (init l)"
| call: "reachable cfg st \<Longrightarrow> step n cfg st c = Some (st', r, tr) \<Longrightarrow> reachable cfg st'"

text \<open>In a reachable state every registry is stored under its own namespace, namespaces
  and keys are well-formed paths, and no full path of a key is a registered namespace.\<close>

definition consistent :: "'v state \<Rightarrow> bool" where
  "consistent st =
     (\<forall>ns reg. map_of (namespaces st) ns = Some reg \<longrightarrow>
        r_namespace reg = ns \<and> testNamespacePath ns
        \<and> (\<forall>k e. map_of (keyValue reg) k = Some e \<longrightarrow>
              testNamespacePath k \<and> map_of (namespaces st) (ns @ CHR ''.'' # k) = None))"

section \<open>Measures of the search\<close>

text \<open>The pairs (registry, local key) a context has visited, the pairs that hold a borrow
  link, and the number of key entries of all registries, which bounds the latter.\<close>

definition visitedPairs :: "visitedI18n \<Rightarrow> (string \<times> string) set" where
  "visitedPairs ctx = {(ns, k). \<exists>vs. map_of (visited ctx) ns = Some vs \<and> k \<in> set vs}"

definition borrowPairs :: "'v state \<Rightarrow> (string \<times> string) set" where
  "borrowPairs st =
     {(ns, k). \<exists>reg e. map_of (namespaces st) ns = Some reg
                 \<and> map_of (keyValue reg) k = Some (Borrow e)}"

definition keyCount :: "'v state \<Rightarrow> nat" where
  "keyCount st = sum_list (map (\<lambda>e. length (keyValue (snd e))) (namespaces st))"

definition unvisited :: "'v state \<Rightarrow> visitedI18n \<Rightarrow> (string \<times> string) set" where
  "unvisited st ctx = borrowPairs st - visitedPairs ctx"

section \<open>Reports and owners\<close>

text \<open>The reports of a search: \<open>cycleReport namespace key e\<close> holds when \<open>e\<close> is the report of
  a \<open>CircularDependencyError\<close> for the origin \<open>namespace\<close> and \<open>key\<close>.\<close>

fun cycleReport :: "string option \<Rightarrow> string \<Rightarrow> effect \<Rightarrow> bool" where
  "cycleReport namespace key (Report (CircularDependencyError n k a b)) = (n = namespace \<and> k = key)"
| "cycleReport namespace key e = False"

text \<open>The candidates of the full key \<open>ns.k\<close> that \<open>findValue\<close> examines before the candidate
  \<open>(ns, k)\<close> are those of the shorter ancestor namespaces. The key \<open>k\<close> of the registry at
  \<open>ns\<close> is unshadowed when none of them has a registry that owns its part of the path.\<close>

definition unshadowed :: "'v state \<Rightarrow> string \<Rightarrow> string \<Rightarrow> bool" where
  "unshadowed st ns k =
     list_all (\<lambda>c. case map_of (namespaces st) (fst c) of
                     None \<Rightarrow> True
                   | Some registry \<Rightarrow> map_of (keyValue registry) (snd c) = None)
       (takeWhile (\<lambda>c. fst c \<noteq> ns) (splitKeyByNamespace (ns @ CHR ''.'' # k)))"

section \<open>Example states\<close>

text \<open>A state with nested registries (\<open>settings\<close>, \<open>settings.foo\<close>, \<open>settings.foo.bar\<close>, as in
  the test \<open>I18n more examples\<close>), a borrowed key, a cached value and an unresolved key.\<close>

definition settingsState :: "string state" where
  "settingsState =
     \<lparr>namespaces =
        [(''settings'',
          \<lparr>r_namespace = ''settings'', keyValue = [(''a'', Borrow ''settings.b'')],
           externalListeners = [(''a'', ''settings'', Listener ''settings'' ''a'' ''b'')]\<rparr>),
         (''settings.foo'', \<lparr>r_namespace = ''settings.foo'', keyValue = [], externalListeners = []\<rparr>),
         (''settings.foo.bar'',
          \<lparr>r_namespace = ''settings.foo.bar'', keyValue = [], externalListeners = []\<rparr>)],
      cache = [(''settings.x'', ''X'')], errorKeys = [''settings.a''], s_locale = ''ru_ru'',
      events = [(''settings'', [Listener ''settings'' ''a'' ''b''])]\<rparr>"

text \<open>Two registries whose keys borrow each other: a cyclic reference chain.\<close>

definition cyclicState :: "string state" where
  "cyclicState =
     \<lparr>namespaces =
        [(''foo'', \<lparr>r_namespace = ''foo'', keyValue = [(''bar'', Borrow ''bar.foo'')],
                   externalListeners = [(''bar'', ''bar'', Listener ''foo'' ''bar'' ''foo'')]\<rparr>),
         (''bar'', \<lparr>r_namespace = ''bar'', keyValue = [(''foo'', Borrow ''foo.bar'')],
                   externalListeners = [(''foo'', ''foo'', Listener ''bar'' ''foo'' ''bar'')]\<rparr>)],
      cache = [], errorKeys = [], s_locale = ''en'',
      events = [(''bar'', [Listener ''foo'' ''bar'' ''foo'']),
                (''foo'', [Listener ''bar'' ''foo'' ''bar''])]\<rparr>"

text \<open>A key that two registries can answer: \<open>a\<close> owns \<open>b.c\<close> and \<open>a.b\<close> owns \<open>c\<close>
  (\<open>a.b\<close> was registered before \<open>a.set('b.c', \<dots>)\<close>).\<close>

definition nestedState :: "string state" where
  "nestedState =
     \<lparr>namespaces =
        [(''a'', \<lparr>r_namespace = ''a'', keyValue = [(''b.c'', Direct [(''en'', ''general'')])],
                 externalListeners = []\<rparr>),
         (''a.b'', \<lparr>r_namespace = ''a.b'', keyValue = [(''c'', Direct [(''en'', ''specific'')])],
                   externalListeners = []\<rparr>)],
      cache = [], errorKeys = [], s_locale = ''en'', events = []\<rparr>"

text \<open>Two reachable states: \<open>x.y\<close> borrows \<open>settings.foo\<close>, which is registered as a namespace
  afterwards; and \<open>a.b\<close> owns the key \<open>c\<close>.\<close>

definition crossState :: "string state" where
  "crossState =
     \<lparr>namespaces =
        [(''settings'', \<lparr>r_namespace = ''settings'', keyValue = [], externalListeners = []\<rparr>),
         (''x'', \<lparr>r_namespace = ''x'', keyValue = [(''y'', Borrow ''settings.foo'')],
                 externalListeners = [(''y'', ''settings'', Listener ''x'' ''y'' ''foo'')]\<rparr>),
         (''settings.foo'',
          \<lparr>r_namespace = ''settings.foo'', keyValue = [], externalListeners = []\<rparr>)],
      cache = [], errorKeys = [], s_locale = ''ru_ru'',
      events = [(''settings'', [Listener ''x'' ''y'' ''foo''])]\<rparr>"

definition ownerState :: "string state" where
  "ownerState =
     \<lparr>namespaces =
        [(''a.b'', \<lparr>r_namespace = ''a.b'', keyValue = [(''c'', Direct [(''ru_ru'', ''v'')])],
                   externalListeners = []\<rparr>)],
      cache = [], errorKeys = [], s_locale = ''ru_ru'', events = []\<rparr>"




text \<open>Two keys whose listeners call each other: \<open>a.b.c\<close> borrows \<open>x.y\<close> and \<open>x.y\<close> borrows
  \<open>a.b.c\<close>, while the registry \<open>a\<close> answers for \<open>a.b.c\<close> with its key \<open>b.c\<close>.\<close>

definition loopState :: "string state" where
  "loopState =
     \<lparr>namespaces =
        [(''a'', \<lparr>r_namespace = ''a'', keyValue = [(''b.c'', Direct [(''en'', ''v'')])],
                 externalListeners = []\<rparr>),
         (''a.b'', \<lparr>r_namespace = ''a.b'', keyValue = [(''c'', Borrow ''x.y'')],
                   externalListeners = [(''c'', ''x'', Listener ''a.b'' ''c'' ''y'')]\<rparr>),
         (''x'', \<lparr>r_namespace = ''x'', keyValue = [(''y'', Borrow ''a.b.c'')],
                 externalListeners = [(''y'', ''a'', Listener ''x'' ''y'' ''b.c'')]\<rparr>)],
      cache = [], errorKeys = [], s_locale = ''en'',
      events = [(''x'', [Listener ''a.b'' ''c'' ''y'']), (''a'', [Listener ''x'' ''y'' ''b.c''])]\<rparr>"

section \<open>Evaluation lemmas\<close>

lemma fuel_numeral:
  "findValue (numeral k) cfg st loc fullKey ctx =
     findLoop (registryGetValue (findValue (pred_numeral k) cfg st) cfg) st loc
       (splitKeyByNamespace fullKey) ctx"
  "changeKey (numeral k) st namespace key =
     Some (emitKey (changeKey (pred_numeral k)) namespace key
             (st\<lparr>errorKeys :=
                   removeAll (concatNamespaceWithKey (Some namespace) key) (errorKeys st)\<rparr>))"
  by (simp_all add: numeral_eq_Suc)

lemmas model_defs =
  register_def setValue_def use_def getValue_def handleKey_def changeLocale_def
  checkFullKey_def setExternalKey_def emitKey_def onKey_def offKey_def registryGetValue_def
  visitKey_def getKeyIfIntersection_def init_def set_add_def freshContext_def

lemma selectValue_single: "selectValue cfg [(l, v)] loc = Some v"
  by (simp add: selectValue_def)

lemma scenario_paths:
  "splitKeyByNamespace ''ns'' = []"
  "splitKeyByNamespace ''ns1'' = []"
  "splitKeyByNamespace ''ns2'' = []"
  "splitKeyByNamespace ''ns3'' = []"
  "splitKeyByNamespace ''ns.k'' = [(''ns'', ''k'')]"
  "splitKeyByNamespace ''ns1.v'' = [(''ns1'', ''v'')]"
  "splitKeyByNamespace ''ns2.v'' = [(''ns2'', ''v'')]"
  "splitKeyByNamespace ''ns3.v'' = [(''ns3'', ''v'')]"
  "splitKeyByNamespace ''ns1.w'' = [(''ns1'', ''w'')]"
  "testNamespacePath ''ns''"
  "testNamespacePath ''ns1''"
  "testNamespacePath ''ns2''"
  "testNamespacePath ''ns3''"
  "testNamespacePath ''k''"
  "testNamespacePath ''v''"
  "testNamespacePath ''w''"
  "testNamespacePath ''ns1.v''"
  "testNamespacePath ''ns2.v''"
  "testNamespacePath ''ns3.v''"
  "testNamespacePath ''ns1.w''"
  "indexOf_dot ''ns1.v'' = Some 3"
  "indexOf_dot ''ns2.v'' = Some 3"
  "indexOf_dot ''ns3.v'' = Some 3"
  "indexOf_dot ''ns1.w'' = Some 3"
  by code_simp+

section \<open>Locale change\<close>

text \<open>
  C9. \<open>changeLocale\<close> with a locale the acceptance predicate rejects reports
  \<open>UnregisteredLocaleError\<close> and changes nothing; with an accepted locale different from
  the current one it sets the current locale, empties the cache, emits the locale event and
  leaves the unresolved keys (and the registries and listeners) as they were; with the
  current locale it does nothing. In every case it returns the locale that is current
  after the call.
\<close>

theorem changeLocale_frame:
  "(\<not> isSupportedLocale cfg l \<longrightarrow>
      changeLocale cfg st l = (st, s_locale st, [Report (UnregisteredLocaleError l)]))
   \<and> (isSupportedLocale cfg l \<and> l \<noteq> s_locale st \<longrightarrow>
      (\<exists>st'. changeLocale cfg st l = (st', l, [EmitLocale l])
         \<and> s_locale st' = l \<and> cache st' = [] \<and> errorKeys st' = errorKeys st
         \<and> namespaces st' = namespaces st \<and> events st' = events st))
   \<and> (isSupportedLocale cfg l \<and> l = s_locale st \<longrightarrow> changeLocale cfg st l = (st, l, []))
   \<and> fst (snd (changeLocale cfg st l)) = s_locale (fst (changeLocale cfg st l))"
  by (simp add: changeLocale_def)

theorem changeLocale_frame_witness:
  "changeLocale (stringConfig ''ru_ru'' [''en_us'', ''ru_ru''] ''__DEV_ERROR__'')
     \<lparr>namespaces = [], cache = [(''a.b'', ''x'')], errorKeys = [''c.d''], s_locale = ''ru_ru'',
      events = []\<rparr> ''oh_no''
   = (\<lparr>namespaces = [], cache = [(''a.b'', ''x'')], errorKeys = [''c.d''], s_locale = ''ru_ru'',
       events = []\<rparr>, ''ru_ru'', [Report (UnregisteredLocaleError ''oh_no'')])
   \<and> changeLocale (stringConfig ''ru_ru'' [''en_us'', ''ru_ru''] ''__DEV_ERROR__'')
     \<lparr>namespaces = [], cache = [(''a.b'', ''x'')], errorKeys = [''c.d''], s_locale = ''ru_ru'',
      events = []\<rparr> ''en_us''
   = (\<lparr>namespaces = [], cache = [], errorKeys = [''c.d''], s_locale = ''en_us'',
       events = []\<rparr>, ''en_us'', [EmitLocale ''en_us''])"
  using changeLocale_frame
    [of "stringConfig ''ru_ru'' [''en_us'', ''ru_ru''] ''__DEV_ERROR__''" "''oh_no''"
        "\<lparr>namespaces = [], cache = [(''a.b'', ''x'')], errorKeys = [''c.d''],
          s_locale = ''ru_ru'', events = []\<rparr>"]
    changeLocale_frame
    [of "stringConfig ''ru_ru'' [''en_us'', ''ru_ru''] ''__DEV_ERROR__''" "''en_us''"
        "\<lparr>namespaces = [], cache = [(''a.b'', ''x'')], errorKeys = [''c.d''],
          s_locale = ''ru_ru'', events = []\<rparr>"]
  by (auto simp add: stringConfig_def)

section \<open>Local resolution of a direct entry\<close>

text \<open>
  C10. When the value a direct entry stores under the requested locale is falsy, the
  coalescing chain selects that value (it is not nullish) and the presence check rejects
  it: the registry answers not-found for the key, whatever the default locale or any
  other locale holds, even a truthy value.
\<close>

theorem falsy_requested_value_not_found:
  assumes "map_of (keyValue this) localKey = Some (Direct t)"
    and "map_of t loc = Some v" and "\<not> truthy cfg v"
    and "map_of t (defaultLocale cfg) = Some d" and "truthy cfg d"
  shows "selectValue cfg t loc = Some v
    \<and> registryGetValue findv cfg this loc localKey ctx = Some (ctx, [], None)"
  using assms by (simp add: selectValue_def registryGetValue_def)

theorem falsy_requested_value_not_found_witness:
  "selectValue (stringConfig ''en'' [] ''?'') [(''fr'', ''''), (''en'', ''Hello'')] ''fr'' = Some ''''
   \<and> registryGetValue (\<lambda>loc k c. None) (stringConfig ''en'' [] ''?'')
        \<lparr>r_namespace = ''ns'',
         keyValue = [(''k'', Direct [(''fr'', ''''), (''en'', ''Hello'')])],
         externalListeners = []\<rparr> ''fr'' ''k'' (freshContext None ''k'')
       = Some (freshContext None ''k'', [], None)"
  using falsy_requested_value_not_found
    [of "\<lparr>r_namespace = ''ns'',
          keyValue = [(''k'', Direct [(''fr'', ''''), (''en'', ''Hello'')])],
          externalListeners = []\<rparr>" "''k''" "[(''fr'', ''''), (''en'', ''Hello'')]" "''fr''" "''''"
        "stringConfig ''en'' [] ''?''" "''Hello''" "\<lambda>loc k c. None" "freshContext None ''k''"]
  by (simp add: stringConfig_def)

section \<open>Failed calls\<close>

lemma register_failed: "register st fullNamespace = (st', None, tr) \<Longrightarrow> st' = st"
  by (auto simp add: register_def split: option.splits if_splits)

lemma setValue_failed: "setValue n st rn key val loc = Some (st', False, tr) \<Longrightarrow> st' = st"
  by (auto simp add: setValue_def checkFullKey_def Let_def
      split: option.splits if_splits prod.splits)

lemma checkFullKey_failed: "checkFullKey st namespace key remove = (st', False, tr) \<Longrightarrow> st' = st"
  by (auto simp add: checkFullKey_def Let_def split: option.splits if_splits)

lemma checkFullKey_keep: "checkFullKey st namespace key False = (st', ok, tr) \<Longrightarrow> st' = st"
  by (auto simp add: checkFullKey_def Let_def split: option.splits if_splits)

lemma use_failed: "use n cfg st rn key externalFullKey = Some (st', False, tr) \<Longrightarrow> st' = st"
  unfolding use_def
  by (auto simp add: Let_def split: option.splits if_splits prod.splits
      dest: checkFullKey_failed checkFullKey_keep)

text \<open>
  C2. A call of \<open>register\<close> that returns null, and a call of \<open>setValue\<close> or of \<open>use\<close> that
  returns false, leaves the whole state as it was: the registries with their key tables
  and listeners, the listeners of the emitter, the cache, the unresolved keys and the
  current locale.
\<close>

theorem failed_call_leaves_state:
  "(register st fullNamespace = (st', None, tr) \<longrightarrow> st' = st)
   \<and> (setValue n st rn key val loc = Some (st', False, tr) \<longrightarrow> st' = st)
   \<and> (use n cfg st rn key externalFullKey = Some (st', False, tr) \<longrightarrow> st' = st)"
  by (intro conjI impI) (erule register_failed setValue_failed use_failed)+

theorem failed_call_leaves_state_witness:
  "register settingsState ''settings..qux''
     = (settingsState, None, [Report (NamespaceError ''settings..qux'')])
   \<and> setValue 4 settingsState ''settings.foo'' ''bar'' ''Some Text'' ''ru_ru''
     = Some (settingsState, False,
             [Report (IntersectionError (Some ''settings.foo'') ''bar'' ''settings.foo.bar'')])
   \<and> use 4 (stringConfig ''ru_ru'' [] ''?'') settingsState ''settings'' ''b'' ''settings.a''
     = Some (settingsState, False,
             [Report (CircularDependencyError None ''b'' ''settings'' ''b'')])"
proof -
  let ?cfg = "stringConfig ''ru_ru'' [] ''?''"
  let ?a = "register settingsState ''settings..qux''"
  let ?b = "setValue 4 settingsState ''settings.foo'' ''bar'' ''Some Text'' ''ru_ru''"
  let ?c = "use 4 ?cfg settingsState ''settings'' ''b'' ''settings.a''"
  have paths:
    "\<not> testNamespacePath ''settings..qux''" "testNamespacePath ''bar''"
    "testNamespacePath ''b''" "testNamespacePath ''settings.a''"
    "indexOf_dot ''settings.a'' = Some 8"
    "splitKeyByNamespace ''settings.a'' = [(''settings'', ''a'')]"
    "splitKeyByNamespace ''settings.b'' = [(''settings'', ''b'')]"
    by code_simp+
  have a: "?a = (fst ?a, None, [Report (NamespaceError ''settings..qux'')])"
    by (simp add: register_def settingsState_def paths)
  have b: "?b = Some (fst (the ?b), False,
             [Report (IntersectionError (Some ''settings.foo'') ''bar'' ''settings.foo.bar'')])"
    by (simp add: setValue_def checkFullKey_def settingsState_def paths Let_def)
  have c: "?c = Some (fst (the ?c), False,
             [Report (CircularDependencyError None ''b'' ''settings'' ''b'')])"
    by (simp add: use_def registryGetValue_def visitKey_def fuel_numeral settingsState_def
        paths Let_def)
  note t = failed_call_leaves_state
  have "fst ?a = settingsState"
    by (rule t [THEN conjunct1, THEN mp, OF a])
  moreover have "fst (the ?b) = settingsState"
    by (rule t [THEN conjunct2, THEN conjunct1, THEN mp, OF b])
  moreover have "fst (the ?c) = settingsState"
    by (rule t [THEN conjunct2, THEN conjunct2, THEN mp, OF c])
  ultimately show ?thesis
    using a b c by simp
qed

section \<open>Scenarios\<close>

text \<open>
  C4. Three registries borrow in a chain, \<open>ns1.v\<close> from \<open>ns2.v\<close>, \<open>ns2.v\<close> from \<open>ns3.v\<close> and
  \<open>ns3.v\<close> from \<open>ns1.w\<close>, and \<open>ns1.w\<close> is set to a truthy value \<open>X\<close> (under any locale).
  Then \<open>ns1.v\<close> resolves to \<open>X\<close>; \<open>ns1.use('w', 'ns1.v')\<close> returns false, reports
  \<open>CircularDependencyError\<close> and leaves the state as it was; and \<open>ns1.v\<close> still resolves to
  \<open>X\<close>, from the cache as well as by a new search.
\<close>

theorem indirect_cycle_rejected:
  assumes "truthy cfg X"
  shows "\<exists>s1 s2 outs ctx.
     run 8 cfg (init l)
       [Register ''ns1'', Register ''ns2'', Register ''ns3'',
        Use ''ns1'' ''v'' ''ns2.v'', Use ''ns2'' ''v'' ''ns3.v'', Use ''ns3'' ''v'' ''ns1.w'',
        SetValue ''ns1'' ''w'' X l'] = Some (s1, outs)
     \<and> map fst outs
         = [Registry (Some ''ns1''), Registry (Some ''ns2''), Registry (Some ''ns3''),
            Flag True, Flag True, Flag True, Flag True]
     \<and> getValue 8 cfg s1 (Some ''ns1'') ''v'' = Some (s2, X, [])
     \<and> use 8 cfg s2 ''ns1'' ''w'' ''ns1.v''
         = Some (s2, False, [Report (CircularDependencyError None ''w'' ''ns1'' ''w'')])
     \<and> getValue 8 cfg s2 (Some ''ns1'') ''v'' = Some (s2, X, [])
     \<and> findValue 8 cfg s2 (s_locale s2) ''ns1.v'' (freshContext (Some ''ns1'') ''v'')
         = Some (ctx, [], Some (X, ''ns1''))"
  using assms
  by (simp add: model_defs fuel_numeral scenario_paths selectValue_single Let_def)

theorem indirect_cycle_rejected_witness:
  "\<exists>s1 s2 outs ctx.
     run 8 (stringConfig ''ru_ru'' [] ''?'') (init ''ru_ru'')
       [Register ''ns1'', Register ''ns2'', Register ''ns3'',
        Use ''ns1'' ''v'' ''ns2.v'', Use ''ns2'' ''v'' ''ns3.v'', Use ''ns3'' ''v'' ''ns1.w'',
        SetValue ''ns1'' ''w'' ''ru to en'' ''en_us''] = Some (s1, outs)
     \<and> map fst outs
         = [Registry (Some ''ns1''), Registry (Some ''ns2''), Registry (Some ''ns3''),
            Flag True, Flag True, Flag True, Flag True]
     \<and> getValue 8 (stringConfig ''ru_ru'' [] ''?'') s1 (Some ''ns1'') ''v''
         = Some (s2, ''ru to en'', [])
     \<and> use 8 (stringConfig ''ru_ru'' [] ''?'') s2 ''ns1'' ''w'' ''ns1.v''
         = Some (s2, False, [Report (CircularDependencyError None ''w'' ''ns1'' ''w'')])
     \<and> getValue 8 (stringConfig ''ru_ru'' [] ''?'') s2 (Some ''ns1'') ''v''
         = Some (s2, ''ru to en'', [])
     \<and> findValue 8 (stringConfig ''ru_ru'' [] ''?'') s2 (s_locale s2) ''ns1.v''
          (freshContext (Some ''ns1'') ''v'')
         = Some (ctx, [], Some (''ru to en'', ''ns1''))"
proof -
  have "truthy (stringConfig ''ru_ru'' [] ''?'') ''ru to en''"
    by (simp add: stringConfig_def)
  from indirect_cycle_rejected [OF this] show ?thesis .
qed

section \<open>Change propagation and the cache\<close>

text \<open>\<open>changeKey\<close>, with everything its listeners do, changes nothing but the unresolved
  keys: it deletes entries of \<open>errorKeys\<close> and never an entry of the cache.\<close>

lemma emit_frame:
  assumes "\<And>s a b s' t. chg s a b = Some (s', t) \<Longrightarrow> s' = s\<lparr>errorKeys := errorKeys s'\<rparr>"
    and "emit chg ls val st = (st', tr)"
  shows "st' = st\<lparr>errorKeys := errorKeys st'\<rparr>"
  using assms(2)
proof (induction ls arbitrary: st tr)
  case Nil
  then show ?case by simp
next
  case (Cons l ls)
  from Cons.prems obtain s1 t1 t2 where
    h: "(if val = l_partKey l
         then (case chg st (l_owner l) (l_key l) of None \<Rightarrow> (st, [ConsoleError]) | Some r \<Rightarrow> r)
         else (st, [])) = (s1, t1)"
    and r: "emit chg ls val s1 = (st', t2)"
    by (auto split: prod.splits)
  from h have "s1 = st\<lparr>errorKeys := errorKeys s1\<rparr>"
    by (auto split: if_splits option.splits dest: assms(1))
  moreover from Cons.IH [OF r] have "st' = s1\<lparr>errorKeys := errorKeys st'\<rparr>" .
  ultimately show ?case
    by (metis state.surjective state.update_convs(3))
qed

lemma emitAffected_frame:
  assumes "\<And>s a b s' t. chg s a b = Some (s', t) \<Longrightarrow> s' = s\<lparr>errorKeys := errorKeys s'\<rparr>"
    and "emitAffected chg cs st = (st', tr)"
  shows "st' = st\<lparr>errorKeys := errorKeys st'\<rparr>"
  using assms(2)
proof (induction cs arbitrary: st tr)
  case Nil
  then show ?case by simp
next
  case (Cons c cs)
  from Cons.prems obtain s1 t1 t2 where
    h: "(case map_of (events st) (fst c) of None \<Rightarrow> (st, [])
         | Some ls \<Rightarrow> emit chg ls (snd c) st) = (s1, t1)"
    and r: "emitAffected chg cs s1 = (st', t2)"
    by (auto split: prod.splits)
  have "s1 = st\<lparr>errorKeys := errorKeys s1\<rparr>"
  proof (cases "map_of (events st) (fst c)")
    case None
    with h show ?thesis by simp
  next
    case (Some ls)
    with h have "emit chg ls (snd c) st = (s1, t1)" by simp
    with assms(1) show ?thesis by (rule emit_frame)
  qed
  moreover from Cons.IH [OF r] have "st' = s1\<lparr>errorKeys := errorKeys st'\<rparr>" .
  ultimately show ?case
    by (metis state.surjective state.update_convs(3))
qed

lemma changeKey_frame:
  "changeKey n st namespace key = Some (st', tr) \<Longrightarrow> st' = st\<lparr>errorKeys := errorKeys st'\<rparr>"
proof (induction n arbitrary: st namespace key st' tr)
  case 0
  then show ?case by simp
next
  case (Suc n)
  let ?s0 = "st\<lparr>errorKeys := removeAll (concatNamespaceWithKey (Some namespace) key) (errorKeys st)\<rparr>"
  from Suc.prems obtain t where
    "emitAffected (changeKey n) (splitKeyByNamespace (concatNamespaceWithKey (Some namespace) key)) ?s0
       = (st', t)"
    by (auto simp add: emitKey_def split: prod.splits)
  from emitAffected_frame [OF Suc.IH this] have "st' = ?s0\<lparr>errorKeys := errorKeys st'\<rparr>" .
  then show ?case by simp
qed

text \<open>With a call left on the stack \<open>changeKey\<close> returns, whatever the listeners are.\<close>

lemma changeKey_returns: "\<exists>st' tr. changeKey (Suc n) st namespace key = Some (st', tr)"
  by (cases "emitKey (changeKey n) namespace key
      (st\<lparr>errorKeys := removeAll (concatNamespaceWithKey (Some namespace) key) (errorKeys st)\<rparr>)")
    simp

lemma changeKey_keeps:
  assumes "changeKey n st namespace key = Some (st', tr)"
  shows "cache st' = cache st" and "namespaces st' = namespaces st"
    and "events st' = events st" and "s_locale st' = s_locale st"
proof -
  obtain e where "st' = st\<lparr>errorKeys := e\<rparr>"
    using changeKey_frame [OF assms] by (rule that)
  then show "cache st' = cache st" and "namespaces st' = namespaces st"
    and "events st' = events st" and "s_locale st' = s_locale st"
    by simp_all
qed

text \<open>
  C1. The code at the failing input. \<open>ns2.x\<close> borrows \<open>ns1.var\<close>, is read once (and cached),
  and then \<open>ns1.var\<close> is set to a new value. The listener of the borrow runs \<open>changeKey\<close>,
  which leaves the cache alone: the cache still maps \<open>ns2.x\<close> to the old value and
  \<open>getValue\<close> returns it, although a search from the registries finds the new value.
\<close>

theorem borrowed_target_change_keeps_cached_value:
  "\<exists>s outs ctx.
     run 8 (stringConfig ''en_us'' [] ''__DEV_ERROR__'') (init ''en_us'')
       [Register ''ns1'', Register ''ns2'',
        SetValue ''ns1'' ''var'' ''Some Text'' ''en_us'',
        Use ''ns2'' ''x'' ''ns1.var'',
        GetValue (Some ''ns2'') ''x'',
        SetValue ''ns1'' ''var'' ''Update'' ''en_us''] = Some (s, outs)
     \<and> map fst outs
         = [Registry (Some ''ns1''), Registry (Some ''ns2''), Flag True, Flag True,
            Value ''Some Text'', Flag True]
     \<and> map_of (cache s) ''ns2.x'' = Some ''Some Text''
     \<and> getValue 8 (stringConfig ''en_us'' [] ''__DEV_ERROR__'') s (Some ''ns2'') ''x''
         = Some (s, ''Some Text'', [])
     \<and> findValue 8 (stringConfig ''en_us'' [] ''__DEV_ERROR__'') s ''en_us'' ''ns2.x''
          (freshContext (Some ''ns2'') ''x'')
         = Some (ctx, [], Some (''Update'', ''ns1''))"
proof -
  have paths:
    "splitKeyByNamespace ''ns1'' = []" "splitKeyByNamespace ''ns2'' = []"
    "splitKeyByNamespace ''ns1.var'' = [(''ns1'', ''var'')]"
    "splitKeyByNamespace ''ns2.x'' = [(''ns2'', ''x'')]"
    "testNamespacePath ''ns1''" "testNamespacePath ''ns2''"
    "testNamespacePath ''var''" "testNamespacePath ''x''" "testNamespacePath ''ns1.var''"
    "indexOf_dot ''ns1.var'' = Some 3"
    by code_simp+
  show ?thesis
    by (simp add: model_defs fuel_numeral paths selectValue_single stringConfig_def Let_def)
qed


section \<open>Termination of the search\<close>

lemma borrowPairs_subset:
  "borrowPairs st \<subseteq> (\<Union>e \<in> set (namespaces st). {fst e} \<times> fst ` set (keyValue (snd e)))"
proof
  fix p assume "p \<in> borrowPairs st"
  then obtain ns k reg e where p: "p = (ns, k)"
    and r: "map_of (namespaces st) ns = Some reg"
    and b: "map_of (keyValue reg) k = Some (Borrow e)"
    by (auto simp add: borrowPairs_def)
  from r have "(ns, reg) \<in> set (namespaces st)" by (rule map_of_SomeD)
  moreover from b have "k \<in> fst ` set (keyValue reg)"
    by (metis domI dom_map_of_conv_image_fst)
  ultimately show "p \<in> (\<Union>e \<in> set (namespaces st). {fst e} \<times> fst ` set (keyValue (snd e)))"
    using p by force
qed

lemma card_pairs_le:
  "card (\<Union>e \<in> set es. {fst e} \<times> fst ` set (keyValue (snd e)))
     \<le> sum_list (map (\<lambda>e. length (keyValue (snd e))) es)"
proof (induction es)
  case Nil
  then show ?case by simp
next
  case (Cons e es)
  have "card ({fst e} \<times> fst ` set (keyValue (snd e))) \<le> length (keyValue (snd e))"
    by (simp add: card_cartesian_product_singleton)
      (metis card_image_le card_length le_trans List.finite_set)
  moreover have
    "card ({fst e} \<times> fst ` set (keyValue (snd e))
           \<union> (\<Union>e \<in> set es. {fst e} \<times> fst ` set (keyValue (snd e))))
     \<le> card ({fst e} \<times> fst ` set (keyValue (snd e)))
       + card (\<Union>e \<in> set es. {fst e} \<times> fst ` set (keyValue (snd e)))"
    by (rule card_Un_le)
  ultimately show ?case using Cons.IH by simp
qed

lemma finite_borrowPairs: "finite (borrowPairs st)"
  by (rule finite_subset [OF borrowPairs_subset]) simp

lemma card_borrowPairs: "card (borrowPairs st) \<le> keyCount st"
proof -
  have "card (borrowPairs st)
      \<le> card (\<Union>e \<in> set (namespaces st). {fst e} \<times> fst ` set (keyValue (snd e)))"
    by (rule card_mono [OF _ borrowPairs_subset]) simp
  also have "\<dots> \<le> keyCount st"
    unfolding keyCount_def by (rule card_pairs_le)
  finally show ?thesis .
qed

lemma card_unvisited: "card (unvisited st ctx) \<le> keyCount st"
proof -
  have "card (unvisited st ctx) \<le> card (borrowPairs st)"
    unfolding unvisited_def by (rule card_mono [OF finite_borrowPairs]) blast
  with card_borrowPairs [of st] show ?thesis by simp
qed

lemma unvisited_mono:
  "visitedPairs ctx \<subseteq> visitedPairs ctx' \<Longrightarrow> card (unvisited st ctx') \<le> card (unvisited st ctx)"
  unfolding unvisited_def
  by (rule card_mono) (auto intro: finite_borrowPairs)

lemma visitedPairs_error [simp]: "visitedPairs (ctx\<lparr>v_error := b\<rparr>) = visitedPairs ctx"
  by (simp add: visitedPairs_def)

lemma visitKey_fresh: "visitKey ctx ns k = Some vs \<Longrightarrow> (ns, k) \<notin> visitedPairs ctx"
  by (auto simp add: visitKey_def visitedPairs_def split: option.splits if_splits)

lemma visitKey_pairs:
  "visitKey ctx ns k = Some vs \<Longrightarrow>
     visitedPairs (ctx\<lparr>visited := AList.update ns vs (visited ctx)\<rparr>)
       = insert (ns, k) (visitedPairs ctx)"
  by (auto simp add: visitKey_def visitedPairs_def update_conv' split: option.splits if_splits)

lemma unvisited_borrow:
  assumes "visitKey ctx ns k = Some vs"
    and "map_of (namespaces st) ns = Some reg" and "map_of (keyValue reg) k = Some (Borrow e)"
  shows "card (unvisited st (ctx\<lparr>visited := AList.update ns vs (visited ctx)\<rparr>))
           < card (unvisited st ctx)"
proof -
  have mem: "(ns, k) \<in> unvisited st ctx"
    using assms visitKey_fresh [OF assms(1)] by (auto simp add: unvisited_def borrowPairs_def)
  have eq: "unvisited st (ctx\<lparr>visited := AList.update ns vs (visited ctx)\<rparr>)
      = unvisited st ctx - {(ns, k)}"
    by (auto simp add: unvisited_def visitKey_pairs [OF assms(1)])
  have fin: "finite (unvisited st ctx)"
    unfolding unvisited_def using finite_borrowPairs by (rule finite_Diff)
  show ?thesis
    unfolding eq using fin mem by (rule card_Diff1_less)
qed

lemma unvisited_visit:
  assumes "visitKey ctx ns k = Some vs"
  shows "card (unvisited st (ctx\<lparr>visited := AList.update ns vs (visited ctx)\<rparr>))
           \<le> card (unvisited st ctx)"
  by (rule unvisited_mono) (auto simp add: visitKey_pairs [OF assms])

text \<open>The loop returns when the search it calls for a borrowed key returns on every
  context with fewer unvisited borrow links; it only adds to the visited pairs.\<close>

lemma findLoop_returns:
  assumes find: "\<And>loc k c. card (unvisited st c) < n \<Longrightarrow>
      \<exists>c' tr r. findv loc k c = Some (c', tr, r) \<and> visitedPairs c \<subseteq> visitedPairs c'"
  shows "card (unvisited st ctx) \<le> n \<Longrightarrow>
    \<exists>ctx' tr r. findLoop (registryGetValue findv cfg) st loc cs ctx = Some (ctx', tr, r)
       \<and> visitedPairs ctx \<subseteq> visitedPairs ctx'"
proof (induction cs arbitrary: ctx)
  case Nil
  then show ?case by simp
next
  case (Cons c cs)
  show ?case
  proof (cases "map_of (namespaces st) (fst c)")
    case None
    with Cons.IH [OF Cons.prems] show ?thesis by simp
  next
    case (Some reg)
    show ?thesis
    proof (cases "visitKey ctx (fst c) (snd c)")
      case None
      have "card (unvisited st (ctx\<lparr>v_error := True\<rparr>)) \<le> n"
        using Cons.prems by (simp add: unvisited_def)
      from Cons.IH [OF this] obtain ctx' tr r where
        "findLoop (registryGetValue findv cfg) st loc cs (ctx\<lparr>v_error := True\<rparr>) = Some (ctx', tr, r)"
        and "visitedPairs ctx \<subseteq> visitedPairs ctx'"
        by auto
      with Some None show ?thesis by simp
    next
      case (Some vs)
      let ?ctx1 = "ctx\<lparr>visited := AList.update (fst c) vs (visited ctx)\<rparr>"
      have sub1: "visitedPairs ctx \<subseteq> visitedPairs ?ctx1"
        by (auto simp add: visitKey_pairs [OF Some])
      have "\<exists>c2 t2 r2. registryGetValue findv cfg reg loc (snd c) ?ctx1 = Some (c2, t2, r2)
          \<and> visitedPairs ?ctx1 \<subseteq> visitedPairs c2"
      proof (cases "map_of (keyValue reg) (snd c)")
        case None
        then show ?thesis by (simp add: registryGetValue_def)
      next
        case (Some entry)
        show ?thesis
        proof (cases entry)
          case (Direct t)
          with Some show ?thesis
            by (simp add: registryGetValue_def split: option.splits)
        next
          case (Borrow e)
          with Some have b: "map_of (keyValue reg) (snd c) = Some (Borrow e)" by simp
          from unvisited_borrow [OF \<open>visitKey ctx (fst c) (snd c) = Some vs\<close>
              \<open>map_of (namespaces st) (fst c) = Some reg\<close> b]
          have "card (unvisited st ?ctx1) < n"
            using Cons.prems by simp
          from find [OF this, of loc e] b show ?thesis
            by (simp add: registryGetValue_def)
        qed
      qed
      then obtain c2 t2 r2 where
        g: "registryGetValue findv cfg reg loc (snd c) ?ctx1 = Some (c2, t2, r2)"
        and sub2: "visitedPairs ?ctx1 \<subseteq> visitedPairs c2"
        by blast
      show ?thesis
      proof (cases r2)
        case None
        have "visitedPairs ctx \<subseteq> visitedPairs c2"
          using sub1 sub2 by (rule subset_trans)
        from unvisited_mono [OF this, of st] Cons.prems
        have "card (unvisited st c2) \<le> n"
          by (rule le_trans)
        from Cons.IH [OF this] obtain ctx' tr r where
          "findLoop (registryGetValue findv cfg) st loc cs c2 = Some (ctx', tr, r)"
          and "visitedPairs c2 \<subseteq> visitedPairs ctx'"
          by auto
        with g None sub1 sub2 \<open>map_of (namespaces st) (fst c) = Some reg\<close>
          \<open>visitKey ctx (fst c) (snd c) = Some vs\<close>
        show ?thesis by auto
      next
        case (Some v)
        with g sub1 sub2 \<open>map_of (namespaces st) (fst c) = Some reg\<close>
          \<open>visitKey ctx (fst c) (snd c) = Some vs\<close>
        show ?thesis by auto
      qed
    qed
  qed
qed

lemma findValue_returns:
  "card (unvisited st ctx) < n \<Longrightarrow>
     \<exists>ctx' tr r. findValue n cfg st loc fullKey ctx = Some (ctx', tr, r)
        \<and> visitedPairs ctx \<subseteq> visitedPairs ctx'"
proof (induction n arbitrary: ctx loc fullKey)
  case 0
  then show ?case by simp
next
  case (Suc n)
  from Suc.prems have le: "card (unvisited st ctx) \<le> n" by simp
  have "\<exists>c' tr r. findValue n cfg st l k c = Some (c', tr, r)
      \<and> visitedPairs c \<subseteq> visitedPairs c'"
    if "card (unvisited st c) < n" for l k c
    using Suc.IH [OF that] .
  from findLoop_returns [of st n "findValue n cfg st", OF this le]
  show ?case by simp
qed

text \<open>Fuel only decides whether the search returns, never what it returns.\<close>

lemma registryGetValue_mono:
  assumes "\<And>loc k c r. f loc k c = Some r \<Longrightarrow> g loc k c = Some r"
    and "registryGetValue f cfg reg loc localKey ctx = Some r"
  shows "registryGetValue g cfg reg loc localKey ctx = Some r"
  using assms(2)
  by (auto simp add: registryGetValue_def split: option.splits key_entry.splits if_splits
      intro: assms(1))

lemma findLoop_mono:
  assumes "\<And>loc k c r. f loc k c = Some r \<Longrightarrow> g loc k c = Some r"
  shows "findLoop (registryGetValue f cfg) st loc cs ctx = Some r \<Longrightarrow>
    findLoop (registryGetValue g cfg) st loc cs ctx = Some r"
proof (induction cs arbitrary: ctx r)
  case Nil
  then show ?case by simp
next
  case (Cons c cs)
  show ?case
  proof (cases "map_of (namespaces st) (fst c)")
    case None
    with Cons show ?thesis by simp
  next
    case reg: (Some reg)
    show ?thesis
    proof (cases "visitKey ctx (fst c) (snd c)")
      case None
      with reg Cons.prems obtain c1 t1 r1 where
        "findLoop (registryGetValue f cfg) st loc cs (ctx\<lparr>v_error := True\<rparr>) = Some (c1, t1, r1)"
        by (auto split: option.splits)
      from Cons.IH [OF this] this reg None Cons.prems show ?thesis by simp
    next
      case vs: (Some vs)
      let ?ctx1 = "ctx\<lparr>visited := AList.update (fst c) vs (visited ctx)\<rparr>"
      from reg vs Cons.prems obtain c2 t2 r2 where
        g: "registryGetValue f cfg reg loc (snd c) ?ctx1 = Some (c2, t2, r2)"
        by (auto split: option.splits)
      from registryGetValue_mono [OF assms this]
      have g': "registryGetValue g cfg reg loc (snd c) ?ctx1 = Some (c2, t2, r2)" .
      show ?thesis
      proof (cases r2)
        case None
        with reg vs g Cons.prems obtain c3 t3 r3 where
          "findLoop (registryGetValue f cfg) st loc cs c2 = Some (c3, t3, r3)"
          by (auto split: option.splits)
        from Cons.IH [OF this] this reg vs g g' None Cons.prems show ?thesis by simp
      next
        case (Some v)
        with reg vs g g' Cons.prems show ?thesis by auto
      qed
    qed
  qed
qed

lemma findValue_Suc:
  "findValue n cfg st loc fullKey ctx = Some r \<Longrightarrow> findValue (Suc n) cfg st loc fullKey ctx = Some r"
proof (induction n arbitrary: loc fullKey ctx r)
  case 0
  then show ?case by simp
next
  case (Suc n)
  from Suc.prems
  have "findLoop (registryGetValue (findValue n cfg st) cfg) st loc (splitKeyByNamespace fullKey) ctx
      = Some r"
    by simp
  then have "findLoop (registryGetValue (findValue (Suc n) cfg st) cfg) st loc
      (splitKeyByNamespace fullKey) ctx = Some r"
    by (rule findLoop_mono [rotated]) (rule Suc.IH)
  then show ?case by simp
qed

lemma findValue_mono:
  "findValue n cfg st loc fullKey ctx = Some r \<Longrightarrow> n \<le> m \<Longrightarrow>
     findValue m cfg st loc fullKey ctx = Some r"
  by (induction m) (auto simp add: le_Suc_eq dest: findValue_Suc simp del: findValue.simps)

text \<open>
  C3. In every state, cyclic borrow links included, \<open>findValue\<close> returns for every locale
  and full key: from a fresh context, any fuel above the number of key entries is enough;
  from any context, any fuel above the number of borrow links the context has not visited
  is enough, and the context only grows. More fuel never changes a result.
\<close>

theorem findValue_terminates:
  "(keyCount st < n \<longrightarrow>
      (\<exists>ctx' tr r. findValue n cfg st loc fullKey (freshContext namespace key)
                     = Some (ctx', tr, r)))
   \<and> (card (unvisited st ctx) < n \<longrightarrow>
      (\<exists>ctx' tr r. findValue n cfg st loc fullKey ctx = Some (ctx', tr, r)
         \<and> visitedPairs ctx \<subseteq> visitedPairs ctx'))
   \<and> (findValue n cfg st loc fullKey ctx = Some res \<and> n \<le> m \<longrightarrow>
      findValue m cfg st loc fullKey ctx = Some res)"
proof (intro conjI impI)
  assume "keyCount st < n"
  with card_unvisited [of st "freshContext namespace key"]
  have "card (unvisited st (freshContext namespace key)) < n" by simp
  from findValue_returns [OF this]
  show "\<exists>ctx' tr r. findValue n cfg st loc fullKey (freshContext namespace key)
      = Some (ctx', tr, r)"
    by blast
next
  assume "card (unvisited st ctx) < n"
  then show "\<exists>ctx' tr r. findValue n cfg st loc fullKey ctx = Some (ctx', tr, r)
      \<and> visitedPairs ctx \<subseteq> visitedPairs ctx'"
    by (rule findValue_returns)
next
  assume "findValue n cfg st loc fullKey ctx = Some res \<and> n \<le> m"
  then show "findValue m cfg st loc fullKey ctx = Some res"
    by (auto intro: findValue_mono)
qed

theorem findValue_terminates_witness:
  "keyCount cyclicState = 2
   \<and> (\<exists>ctx' tr r. findValue 3 (stringConfig ''en'' [] ''?'') cyclicState ''en'' ''foo.bar''
                     (freshContext None ''foo.bar'') = Some (ctx', tr, r))
   \<and> findValue 5 (stringConfig ''en'' [] ''?'') cyclicState ''en'' ''foo.bar''
        (freshContext None ''foo.bar'')
      = Some (\<lparr>v_namespace = None, v_key = ''foo.bar'',
                visited = [(''foo'', [''bar'']), (''bar'', [''foo''])], v_error = True\<rparr>,
              [Report (CircularDependencyError None ''foo.bar'' ''foo'' ''bar'')], None)"
proof -
  let ?cfg = "stringConfig ''en'' [] ''?''"
  have k: "keyCount cyclicState = 2"
    by (simp add: keyCount_def cyclicState_def)
  then have lt: "keyCount cyclicState < 3" by simp
  note t = findValue_terminates [of cyclicState 3 ?cfg "''en''" "''foo.bar''" None "''foo.bar''"]
  from t [THEN conjunct1, THEN mp, OF lt]
  have e: "\<exists>ctx' tr r. findValue 3 ?cfg cyclicState ''en'' ''foo.bar''
      (freshContext None ''foo.bar'') = Some (ctx', tr, r)" .
  have paths: "splitKeyByNamespace ''foo.bar'' = [(''foo'', ''bar'')]"
    "splitKeyByNamespace ''bar.foo'' = [(''bar'', ''foo'')]"
    by code_simp+
  have v: "findValue 3 ?cfg cyclicState ''en'' ''foo.bar'' (freshContext None ''foo.bar'')
      = Some (\<lparr>v_namespace = None, v_key = ''foo.bar'',
                visited = [(''foo'', [''bar'']), (''bar'', [''foo''])], v_error = True\<rparr>,
              [Report (CircularDependencyError None ''foo.bar'' ''foo'' ''bar'')], None)"
    by (simp add: fuel_numeral registryGetValue_def visitKey_def freshContext_def
        cyclicState_def paths)
  have "(3::nat) \<le> 5" by simp
  with v have "findValue 3 ?cfg cyclicState ''en'' ''foo.bar'' (freshContext None ''foo.bar'')
      = Some (\<lparr>v_namespace = None, v_key = ''foo.bar'',
                visited = [(''foo'', [''bar'']), (''bar'', [''foo''])], v_error = True\<rparr>,
              [Report (CircularDependencyError None ''foo.bar'' ''foo'' ''bar'')], None) \<and> (3::nat) \<le> 5"
    by simp
  from findValue_terminates [THEN conjunct2, THEN conjunct2, THEN mp, OF this] k e
  show ?thesis by simp
qed

section \<open>Repeated reads\<close>

text \<open>
  C8. \<open>getValue\<close> returns for every namespace and key (with fuel above the number of key
  entries), and a second \<open>getValue\<close> of the same namespace and key, run on the state the
  first one left, returns the same value, the default included when the key is unresolved;
  the second call changes nothing, reports nothing and needs no fuel.
\<close>

theorem getValue_twice:
  "(keyCount st < n \<longrightarrow> (\<exists>st1 v tr. getValue n cfg st namespace key = Some (st1, v, tr)))
   \<and> (getValue n cfg st namespace key = Some (st1, v, tr) \<longrightarrow>
        getValue m cfg st1 namespace key = Some (st1, v, []))"
proof (intro conjI impI)
  assume "keyCount st < n"
  with card_unvisited [of st "\<lparr>v_namespace = namespace, v_key = key, visited = [], v_error = False\<rparr>"]
  have "card (unvisited st \<lparr>v_namespace = namespace, v_key = key, visited = [], v_error = False\<rparr>) < n"
    by simp
  from findValue_returns [OF this, of cfg "s_locale st" "concatNamespaceWithKey namespace key"]
  show "\<exists>st1 v tr. getValue n cfg st namespace key = Some (st1, v, tr)"
    by (auto simp add: getValue_def handleKey_def Let_def split: option.splits prod.splits)
next
  assume "getValue n cfg st namespace key = Some (st1, v, tr)"
  then show "getValue m cfg st1 namespace key = Some (st1, v, [])"
    by (auto simp add: getValue_def handleKey_def Let_def update_conv' set_add_def
        split: option.splits if_splits)
qed

theorem getValue_twice_witness:
  "getValue 1 (stringConfig ''ru_ru'' [] ''__DEV_ERROR__'') (init ''ru_ru'') (Some ''settings.locale'') ''ru''
     = Some ((init ''ru_ru'')\<lparr>errorKeys := [''settings.locale.ru'']\<rparr>, ''__DEV_ERROR__'',
             [Report (UnregisteredKeyError (Some ''settings.locale'') ''ru'')])
   \<and> getValue 0 (stringConfig ''ru_ru'' [] ''__DEV_ERROR__'')
        ((init ''ru_ru'')\<lparr>errorKeys := [''settings.locale.ru'']\<rparr>) (Some ''settings.locale'') ''ru''
     = Some ((init ''ru_ru'')\<lparr>errorKeys := [''settings.locale.ru'']\<rparr>, ''__DEV_ERROR__'', [])"
proof -
  let ?cfg = "stringConfig ''ru_ru'' [] ''__DEV_ERROR__''"
  have p: "splitKeyByNamespace ''settings.locale.ru''
      = [(''settings'', ''locale.ru''), (''settings.locale'', ''ru'')]"
    by code_simp
  have a: "getValue 1 ?cfg (init ''ru_ru'') (Some ''settings.locale'') ''ru''
     = Some ((init ''ru_ru'')\<lparr>errorKeys := [''settings.locale.ru'']\<rparr>, ''__DEV_ERROR__'',
             [Report (UnregisteredKeyError (Some ''settings.locale'') ''ru'')])"
    by (simp add: getValue_def handleKey_def init_def stringConfig_def set_add_def p)
  from getValue_twice [THEN conjunct2, THEN mp, OF a] a show ?thesis by simp
qed


section \<open>Candidate order\<close>

lemma split_dot_nonempty [simp]: "split_dot s \<noteq> []"
  by (induction s) (auto split: list.splits)

lemma join_dot_Cons: "ws \<noteq> [] \<Longrightarrow> join_dot (w # ws) = w @ CHR ''.'' # join_dot ws"
  by (cases ws) simp_all

lemma join_dot_char: "join_dot ((c # w) # ws) = c # join_dot (w # ws)"
  by (cases ws) simp_all

lemma join_split [simp]: "join_dot (split_dot s) = s"
proof (induction s)
  case Nil
  then show ?case by simp
next
  case (Cons c cs)
  obtain w ws where s: "split_dot cs = w # ws"
    by (cases "split_dot cs") simp_all
  show ?case
  proof (cases "c = CHR ''.''")
    case True
    with Cons show ?thesis by (simp add: join_dot_Cons)
  next
    case False
    with Cons s show ?thesis by (simp add: join_dot_char)
  qed
qed

lemma join_dot_append:
  "xs \<noteq> [] \<Longrightarrow> ys \<noteq> [] \<Longrightarrow> join_dot (xs @ ys) = join_dot xs @ CHR ''.'' # join_dot ys"
proof (induction xs rule: join_dot.induct)
  case 1
  then show ?case by simp
next
  case (2 w)
  then show ?case by (simp add: join_dot_Cons)
next
  case (3 w v ws)
  then show ?case by simp
qed

lemma join_take_drop:
  assumes "0 < i" and "i < length p"
  shows "join_dot (take i p) @ CHR ''.'' # join_dot (drop i p) = join_dot p"
proof -
  from assms have "take i p \<noteq> []" and "drop i p \<noteq> []" by auto
  from join_dot_append [OF this] show ?thesis by simp
qed

lemma join_take_less:
  assumes "0 < i" and "i < j" and "j \<le> length p"
  shows "length (join_dot (take i p)) < length (join_dot (take j p))"
proof -
  from assms have "i < length (take j p)" by simp
  with assms(1) have
    "join_dot (take i (take j p)) @ CHR ''.'' # join_dot (drop i (take j p)) = join_dot (take j p)"
    by (rule join_take_drop)
  then have "length (join_dot (take j p))
      = length (join_dot (take i (take j p)) @ CHR ''.'' # join_dot (drop i (take j p)))"
    by (rule arg_cong [where f = length, symmetric])
  moreover have "take i (take j p) = take i p"
    using assms by (simp add: min_def)
  ultimately show ?thesis by (simp del: take_take)
qed

lemma splitKeyByNamespace_length:
  "length (splitKeyByNamespace fullKey) = length (split_dot fullKey) - 1"
  by (simp add: splitKeyByNamespace_def collectNamespaceKeyPairs_def)

lemma splitKeyByNamespace_nth:
  "i < length (splitKeyByNamespace fullKey) \<Longrightarrow>
     splitKeyByNamespace fullKey ! i
       = (join_dot (take (Suc i) (split_dot fullKey)), join_dot (drop (Suc i) (split_dot fullKey)))"
  by (simp add: splitKeyByNamespace_def collectNamespaceKeyPairs_def)

lemma splitKeyByNamespace_concat:
  assumes "i < length (splitKeyByNamespace fullKey)"
  shows "fst (splitKeyByNamespace fullKey ! i) @ CHR ''.'' # snd (splitKeyByNamespace fullKey ! i)
           = fullKey"
proof -
  from assms have "Suc i < length (split_dot fullKey)"
    by (simp add: splitKeyByNamespace_length)
  with join_take_drop [of "Suc i" "split_dot fullKey"] splitKeyByNamespace_nth [OF assms]
  show ?thesis by simp
qed

lemma splitKeyByNamespace_increasing:
  assumes "i < j" and "j < length (splitKeyByNamespace fullKey)"
  shows "length (fst (splitKeyByNamespace fullKey ! i))
           < length (fst (splitKeyByNamespace fullKey ! j))"
proof -
  from assms have "Suc j \<le> length (split_dot fullKey)"
    by (simp add: splitKeyByNamespace_length)
  with assms join_take_less [of "Suc i" "Suc j" "split_dot fullKey"]
  show ?thesis by (simp add: splitKeyByNamespace_nth)
qed

text \<open>Candidates that yield nothing only pass their context and errors on; a candidate
  that yields a value ends the loop.\<close>

lemma findLoop_append:
  "findLoop getv st loc pre ctx = Some (ctx1, tr1, None) \<Longrightarrow>
     findLoop getv st loc (pre @ rest) ctx
       = (case findLoop getv st loc rest ctx1 of
            None \<Rightarrow> None
          | Some (ctx2, tr2, r) \<Rightarrow> Some (ctx2, tr1 @ tr2, r))"
proof (induction pre arbitrary: ctx ctx1 tr1)
  case Nil
  then show ?case by (auto split: option.splits)
next
  case (Cons c pre)
  show ?case
  proof (cases "map_of (namespaces st) (fst c)")
    case None
    with Cons show ?thesis by simp
  next
    case reg: (Some reg)
    show ?thesis
    proof (cases "visitKey ctx (fst c) (snd c)")
      case None
      with reg Cons.prems obtain t where
        l: "findLoop getv st loc pre (ctx\<lparr>v_error := True\<rparr>) = Some (ctx1, t, None)"
        and t: "tr1 = Report (CircularDependencyError (v_namespace ctx) (v_key ctx)
                                (r_namespace reg) (snd c)) # t"
        by (auto split: option.splits)
      from Cons.IH [OF l] reg None t show ?thesis
        by (auto split: option.splits)
    next
      case vs: (Some vs)
      let ?ctx1 = "ctx\<lparr>visited := AList.update (fst c) vs (visited ctx)\<rparr>"
      from reg vs Cons.prems obtain c2 t2 t3 where
        g: "getv reg loc (snd c) ?ctx1 = Some (c2, t2, None)"
        and l: "findLoop getv st loc pre c2 = Some (ctx1, t3, None)"
        and t: "tr1 = t2 @ t3"
        by (auto split: option.splits)
      from Cons.IH [OF l] reg vs g t show ?thesis
        by (auto split: option.splits)
    qed
  qed
qed

lemma findLoop_first_match:
  assumes "findLoop getv st loc pre ctx = Some (ctx1, tr1, None)"
    and "map_of (namespaces st) (fst c) = Some registry"
    and "visitKey ctx1 (fst c) (snd c) = Some vs"
    and "getv registry loc (snd c) (ctx1\<lparr>visited := AList.update (fst c) vs (visited ctx1)\<rparr>)
           = Some (ctx2, tr2, Some found)"
  shows "findLoop getv st loc (pre @ c # post) ctx = Some (ctx2, tr1 @ tr2, Some found)"
  using assms(2-4) by (simp add: findLoop_append [OF assms(1)])

text \<open>
  C6. A full key of \<open>n\<close> segments has \<open>n - 1\<close> candidates: the \<open>i\<close>-th one takes the first
  \<open>i + 1\<close> segments as the namespace and the rest as the key, so that namespace and key
  joined by a dot give the full key back, and the namespaces grow strictly longer.
  \<open>findValue\<close> runs its loop over exactly this list, in this order; when the candidates
  before a candidate yield nothing and that candidate's registry yields a value, the loop
  returns this value whatever candidates follow.
\<close>

theorem candidates_in_order_first_match_wins:
  "length (splitKeyByNamespace fullKey) = length (split_dot fullKey) - 1
   \<and> (\<forall>i. i < length (splitKeyByNamespace fullKey) \<longrightarrow>
         splitKeyByNamespace fullKey ! i
           = (join_dot (take (Suc i) (split_dot fullKey)),
              join_dot (drop (Suc i) (split_dot fullKey)))
         \<and> fst (splitKeyByNamespace fullKey ! i) @ CHR ''.'' # snd (splitKeyByNamespace fullKey ! i)
             = fullKey)
   \<and> (\<forall>i j. i < j \<and> j < length (splitKeyByNamespace fullKey) \<longrightarrow>
         length (fst (splitKeyByNamespace fullKey ! i))
           < length (fst (splitKeyByNamespace fullKey ! j)))
   \<and> findValue (Suc n) cfg st loc fullKey ctx
       = findLoop (registryGetValue (findValue n cfg st) cfg) st loc
           (splitKeyByNamespace fullKey) ctx
   \<and> (findLoop getv st loc pre ctx = Some (ctx1, tr1, None)
        \<and> map_of (namespaces st) (fst c) = Some registry
        \<and> visitKey ctx1 (fst c) (snd c) = Some vs
        \<and> getv registry loc (snd c) (ctx1\<lparr>visited := AList.update (fst c) vs (visited ctx1)\<rparr>)
            = Some (ctx2, tr2, Some found)
        \<longrightarrow> findLoop getv st loc (pre @ c # post) ctx = Some (ctx2, tr1 @ tr2, Some found))"
proof (intro conjI allI impI)
  show "length (splitKeyByNamespace fullKey) = length (split_dot fullKey) - 1"
    by (rule splitKeyByNamespace_length)
next
  fix i assume "i < length (splitKeyByNamespace fullKey)"
  then show "splitKeyByNamespace fullKey ! i
      = (join_dot (take (Suc i) (split_dot fullKey)), join_dot (drop (Suc i) (split_dot fullKey)))"
    by (rule splitKeyByNamespace_nth)
next
  fix i assume "i < length (splitKeyByNamespace fullKey)"
  then show "fst (splitKeyByNamespace fullKey ! i) @ CHR ''.'' # snd (splitKeyByNamespace fullKey ! i)
      = fullKey"
    by (rule splitKeyByNamespace_concat)
next
  fix i j assume "i < j \<and> j < length (splitKeyByNamespace fullKey)"
  then show "length (fst (splitKeyByNamespace fullKey ! i))
      < length (fst (splitKeyByNamespace fullKey ! j))"
    by (auto intro: splitKeyByNamespace_increasing)
next
  show "findValue (Suc n) cfg st loc fullKey ctx
      = findLoop (registryGetValue (findValue n cfg st) cfg) st loc (splitKeyByNamespace fullKey) ctx"
    by simp
next
  assume "findLoop getv st loc pre ctx = Some (ctx1, tr1, None)
      \<and> map_of (namespaces st) (fst c) = Some registry
      \<and> visitKey ctx1 (fst c) (snd c) = Some vs
      \<and> getv registry loc (snd c) (ctx1\<lparr>visited := AList.update (fst c) vs (visited ctx1)\<rparr>)
          = Some (ctx2, tr2, Some found)"
  then show "findLoop getv st loc (pre @ c # post) ctx = Some (ctx2, tr1 @ tr2, Some found)"
    by (auto intro: findLoop_first_match)
qed

theorem candidates_in_order_first_match_wins_witness:
  "length (splitKeyByNamespace ''a.b.c'') = 2
   \<and> splitKeyByNamespace ''a.b.c'' ! 0 = (''a'', ''b.c'')
   \<and> splitKeyByNamespace ''a.b.c'' ! 1 = (''a.b'', ''c'')
   \<and> findValue 2 (stringConfig ''en'' [] ''?'') nestedState ''en'' ''a.b.c''
        (freshContext None ''a.b.c'')
      = Some (\<lparr>v_namespace = None, v_key = ''a.b.c'', visited = [(''a'', [''b.c''])],
                v_error = False\<rparr>, [], Some (''general'', ''a''))"
proof -
  let ?cfg = "stringConfig ''en'' [] ''?''"
  let ?getv = "registryGetValue (findValue 1 ?cfg nestedState) ?cfg"
  let ?ctx = "freshContext None ''a.b.c''"
  let ?reg = "\<lparr>r_namespace = ''a'', keyValue = [(''b.c'', Direct [(''en'', ''general'')])],
                externalListeners = []\<rparr> :: string registry"
  let ?ctx2 = "\<lparr>v_namespace = None, v_key = ''a.b.c'', visited = [(''a'', [''b.c''])],
                v_error = False\<rparr>"
  note t = candidates_in_order_first_match_wins
    [of "''a.b.c''" 1 ?cfg nestedState "''en''" ?ctx ?getv "[]" ?ctx "[]" "(''a'', ''b.c'')"
        ?reg "[''b.c'']" ?ctx2 "[]" "(''general'', ''a'')" "[(''a.b'', ''c'')]"]
  have s: "split_dot ''a.b.c'' = [''a'', ''b'', ''c'']"
    by code_simp
  have c: "splitKeyByNamespace ''a.b.c'' = [(''a'', ''b.c''), (''a.b'', ''c'')]"
    by code_simp
  from t [THEN conjunct1] s have l: "length (splitKeyByNamespace ''a.b.c'') = 2"
    by simp
  from t [THEN conjunct2, THEN conjunct1, rule_format, of 0] l s
  have n0: "splitKeyByNamespace ''a.b.c'' ! 0 = (''a'', ''b.c'')"
    by simp
  from t [THEN conjunct2, THEN conjunct1, rule_format, of 1] l s
  have n1: "splitKeyByNamespace ''a.b.c'' ! 1 = (''a.b'', ''c'')"
    by simp
  have "findLoop ?getv nestedState ''en'' [] ?ctx = Some (?ctx, [], None)
      \<and> map_of (namespaces nestedState) (fst (''a'', ''b.c'')) = Some ?reg
      \<and> visitKey ?ctx (fst (''a'', ''b.c'')) (snd (''a'', ''b.c'')) = Some [''b.c'']
      \<and> ?getv ?reg ''en'' (snd (''a'', ''b.c''))
           (?ctx\<lparr>visited := AList.update (fst (''a'', ''b.c'')) [''b.c''] (visited ?ctx)\<rparr>)
          = Some (?ctx2, [], Some (''general'', ''a''))"
    by (simp add: nestedState_def visitKey_def freshContext_def registryGetValue_def
        selectValue_single stringConfig_def)
  from t [THEN conjunct2, THEN conjunct2, THEN conjunct2, THEN conjunct2, THEN mp, OF this]
  have "findLoop ?getv nestedState ''en'' [(''a'', ''b.c''), (''a.b'', ''c'')] ?ctx
      = Some (?ctx2, [], Some (''general'', ''a''))"
    by simp
  with c have "findValue 2 ?cfg nestedState ''en'' ''a.b.c'' ?ctx
      = Some (?ctx2, [], Some (''general'', ''a''))"
    by (simp add: fuel_numeral)
  with l n0 n1 show ?thesis by simp
qed


section \<open>Namespaces and keys that intersect\<close>

lemma split_dot_append: "split_dot (a @ CHR ''.'' # b) = split_dot a @ split_dot b"
proof (induction a)
  case Nil
  then show ?case by simp
next
  case (Cons c cs)
  obtain w ws where "split_dot cs = w # ws"
    by (cases "split_dot cs") simp_all
  with Cons show ?case by simp
qed

lemma split_dot_length [simp]: "Suc 0 \<le> length (split_dot s)"
  by (cases "split_dot s") simp_all

lemma splitKeyByNamespace_own_split: "(ns, k) \<in> set (splitKeyByNamespace (ns @ CHR ''.'' # k))"
proof -
  let ?p = "split_dot ns @ split_dot k"
  let ?i = "length (split_dot ns)"
  have "?i \<in> set [0 + 1 ..< length ?p]" by simp
  then have "(join_dot (take ?i ?p), join_dot (drop ?i ?p))
      \<in> (\<lambda>i. (join_dot (take i ?p), join_dot (drop i ?p))) ` set [0 + 1 ..< length ?p]"
    by (rule imageI)
  then show ?thesis
    by (simp add: splitKeyByNamespace_def collectNamespaceKeyPairs_def split_dot_append)
qed

lemma splitKeyIntoParts_self: "k \<in> set (splitKeyIntoParts k)"
proof -
  let ?p = "split_dot k"
  have pos: "0 < length ?p" by simp
  then have "length ?p - 1 \<in> set [0 ..< length ?p]"
    by simp
  then have "join_dot (take (length ?p - 1 + 1) ?p)
      \<in> (\<lambda>i. join_dot (take (i + 1) ?p)) ` set [0 ..< length ?p]"
    by (rule imageI)
  moreover from pos have "length ?p - 1 + 1 = length ?p"
    by simp
  ultimately show ?thesis
    by (simp add: splitKeyIntoParts_def)
qed

lemma splitKeyIntoParts_empty: "splitKeyIntoParts [] = [[]]"
  by (simp add: splitKeyIntoParts_def)

lemma getKeyIfIntersection_own:
  assumes "map_of (keyValue reg) k = Some e" and "k \<noteq> []"
  shows "\<exists>key. getKeyIfIntersection reg k = Some key \<and> key \<noteq> []"
proof -
  from assms(1) have "k \<in> set (map fst (keyValue reg))"
    by (metis domI dom_map_of_conv_image_fst set_map)
  with splitKeyIntoParts_self [of k]
  have "\<exists>x \<in> set (map fst (keyValue reg)). k \<in> set (splitKeyIntoParts x)"
    by blast
  then have "getKeyIfIntersection reg k \<noteq> None"
    unfolding getKeyIfIntersection_def find_None_iff by blast
  then obtain key where f: "getKeyIfIntersection reg k = Some key"
    by blast
  then have "k \<in> set (splitKeyIntoParts key)"
    unfolding getKeyIfIntersection_def by (auto simp add: find_Some_iff)
  with assms(2) have "key \<noteq> []"
    by (auto simp add: splitKeyIntoParts_empty)
  with f show ?thesis by simp
qed

lemma registerLoop_intersection:
  assumes "c \<in> set cs" and "map_of (namespaces st) (fst c) = Some reg"
    and "getKeyIfIntersection reg (snd c) = Some key" and "key \<noteq> []"
  shows "\<exists>other key'. registerLoop st fullNamespace cs
           = Some (IntersectionNsError fullNamespace other key')"
  using assms(1)
proof (induction cs)
  case Nil
  then show ?case by simp
next
  case (Cons d cs)
  show ?case
  proof (cases "d = c")
    case True
    with assms(2-4) show ?thesis by simp
  next
    case False
    with Cons have "\<exists>other key'. registerLoop st fullNamespace cs
        = Some (IntersectionNsError fullNamespace other key')"
      by simp
    then show ?thesis
      by (auto split: option.splits)
  qed
qed

lemma register_owned_key:
  assumes "map_of (namespaces st) ns = Some reg" and "map_of (keyValue reg) k = Some e"
    and "k \<noteq> []"
  shows "\<exists>other key'. registerLoop st (ns @ CHR ''.'' # k) (splitKeyByNamespace (ns @ CHR ''.'' # k))
           = Some (IntersectionNsError (ns @ CHR ''.'' # k) other key')"
proof -
  from getKeyIfIntersection_own [OF assms(2,3)] obtain key where
    "getKeyIfIntersection reg k = Some key" and "key \<noteq> []"
    by blast
  with registerLoop_intersection [of "(ns, k)" "splitKeyByNamespace (ns @ CHR ''.'' # k)" st reg key]
    splitKeyByNamespace_own_split [of ns k] assms(1)
  show ?thesis by simp
qed

section \<open>Calls that return\<close>

text \<open>A method called on an existing registry returns: \<open>setValue\<close> with one call left on the
  stack for \<open>changeKey\<close>, \<open>use\<close> with fuel above the number of key entries for its cycle
  simulation. Listeners that call each other do not change this.\<close>

lemma setValue_returns:
  assumes "map_of (namespaces st) rn = Some this"
  shows "\<exists>st' b tr. setValue (Suc n) st rn key val loc = Some (st', b, tr)"
proof -
  have "setValue (Suc n) st rn key val loc \<noteq> None"
    using assms by (simp add: setValue_def Let_def del: not_None_eq split: prod.splits)
  then show ?thesis by auto
qed

lemma use_returns:
  assumes "map_of (namespaces st) rn = Some this" and "keyCount st < n"
  shows "\<exists>st' b tr. use n cfg st rn key externalFullKey = Some (st', b, tr)"
proof -
  let ?ctx0 = "\<lparr>v_namespace = None, v_key = key, visited = [(rn, [key])], v_error = False\<rparr>"
  from assms(2) obtain m where n: "n = Suc m" by (cases n) auto
  from assms(2) card_unvisited [of st ?ctx0] have "card (unvisited st ?ctx0) < n" by simp
  from findValue_returns [OF this, of cfg "s_locale st" externalFullKey] obtain ctx' t' r' where
    f: "findValue n cfg st (s_locale st) externalFullKey ?ctx0 = Some (ctx', t', r')"
    by blast
  have s: "setExternalKey n s rn this key externalFullKey a b \<noteq> None" for s a b
    unfolding setExternalKey_def n by (simp add: Let_def del: not_None_eq)
  have "use n cfg st rn key externalFullKey \<noteq> None"
    unfolding use_def using assms(1) f s
    by (simp add: Let_def del: not_None_eq split: prod.splits option.splits)
  then show ?thesis by auto
qed

lemma cycle_paths:
  "testNamespacePath ''a''" "testNamespacePath ''a.b''" "testNamespacePath ''x''"
  "testNamespacePath ''b.c''" "testNamespacePath ''c''" "testNamespacePath ''y''"
  "testNamespacePath ''x.y''" "testNamespacePath ''a.b.c''"
  "splitKeyByNamespace ''a'' = []" "splitKeyByNamespace ''x'' = []"
  "splitKeyByNamespace ''a.b'' = [(''a'', ''b'')]"
  "splitKeyByNamespace ''a.b.c'' = [(''a'', ''b.c''), (''a.b'', ''c'')]"
  "splitKeyByNamespace ''x.y'' = [(''x'', ''y'')]"
  "indexOf_dot ''x.y'' = Some 1" "indexOf_dot ''a.b.c'' = Some 1"
  by code_simp+

text \<open>
  A listener cycle made by public calls. The cycle simulation of \<open>x.use('y', 'a.b.c')\<close> ends at
  the registry \<open>a\<close>, the first candidate, which holds a value for \<open>b.c\<close>, and never visits the
  key \<open>c\<close> of \<open>a.b\<close>, which borrows \<open>x.y\<close>: the borrow is committed. From then on a change of
  \<open>x.y\<close> or of \<open>a.b.c\<close> makes the two listeners call \<open>changeKey\<close> in turn until the stack is
  used up; the error ends in the \<^verbatim>\<open>catch\<close> block of \<open>emit\<close>, and \<open>use\<close> and \<open>setValue\<close>
  return true. Here the stack holds three, respectively four, nested calls.
\<close>

lemma listener_cycle_commits:
  "run 3 (stringConfig ''en'' [] ''?'') (init ''en'')
     [Register ''a'', Register ''a.b'', Register ''x'',
      SetValue ''a'' ''b.c'' ''v'' ''en'',
      Use ''a.b'' ''c'' ''x.y'',
      Use ''x'' ''y'' ''a.b.c'']
   = Some (loopState,
           [(Registry (Some ''a''), []), (Registry (Some ''a.b''), []), (Registry (Some ''x''), []),
            (Flag True, [EmitKey ''a'' ''b.c'']),
            (Flag True, [EmitKey ''a.b'' ''c'']),
            (Flag True, [EmitKey ''x'' ''y'', EmitKey ''a.b'' ''c'', EmitKey ''x'' ''y'',
                         ConsoleError])])"
  by (simp add: model_defs fuel_numeral cycle_paths selectValue_single stringConfig_def Let_def
      loopState_def)

lemma listener_cycle_set:
  "setValue 4 loopState ''a'' ''b.c'' ''w'' ''en''
   = Some (loopState\<lparr>namespaces :=
             AList.update ''a''
               \<lparr>r_namespace = ''a'', keyValue = [(''b.c'', Direct [(''en'', ''w'')])],
                externalListeners = []\<rparr> (namespaces loopState)\<rparr>, True,
           [EmitKey ''a'' ''b.c'', EmitKey ''x'' ''y'', EmitKey ''a.b'' ''c'', EmitKey ''x'' ''y'',
            ConsoleError])"
  by (simp add: model_defs fuel_numeral cycle_paths loopState_def Let_def)

section \<open>The invariant of reachable states\<close>

lemma consistent_init: "consistent (init l)"
  by (simp add: consistent_def init_def)

lemma consistent_namespaces: "namespaces st' = namespaces st \<Longrightarrow> consistent st \<Longrightarrow> consistent st'"
  by (simp add: consistent_def)

lemma testNamespacePath_nonempty: "testNamespacePath p \<Longrightarrow> p \<noteq> []"
  by (simp add: testNamespacePath_def)

lemma consistent_register:
  assumes "consistent st" and "register st fullNamespace = (st', r, tr)"
  shows "consistent st'"
proof (cases "r = None \<or> map_of (namespaces st) fullNamespace \<noteq> None")
  case True
  with assms(2) have "st' = st"
    by (auto simp add: register_def split: option.splits if_splits)
  with assms(1) show ?thesis by simp
next
  case False
  with assms(2) have valid: "testNamespacePath fullNamespace"
    and loop: "registerLoop st fullNamespace (splitKeyByNamespace fullNamespace) = None"
    and ns: "namespaces st' = AList.update fullNamespace
        \<lparr>r_namespace = fullNamespace, keyValue = [], externalListeners = []\<rparr> (namespaces st)"
    by (auto simp add: register_def split: option.splits if_splits)
  show ?thesis
    unfolding consistent_def
  proof (intro allI impI)
    fix ns reg
    assume m: "map_of (namespaces st') ns = Some reg"
    show "r_namespace reg = ns \<and> testNamespacePath ns
        \<and> (\<forall>k e. map_of (keyValue reg) k = Some e \<longrightarrow>
              testNamespacePath k \<and> map_of (namespaces st') (ns @ CHR ''.'' # k) = None)"
    proof (cases "ns = fullNamespace")
      case True
      with m ns valid show ?thesis by (auto simp add: update_conv')
    next
      case False
      with m ns have old: "map_of (namespaces st) ns = Some reg"
        by (simp add: update_conv')
      with assms(1) have a: "r_namespace reg = ns" and b: "testNamespacePath ns"
        by (auto simp add: consistent_def)
      have "testNamespacePath k \<and> map_of (namespaces st') (ns @ CHR ''.'' # k) = None"
        if k: "map_of (keyValue reg) k = Some e" for k e
      proof -
        from assms(1) old k have v: "testNamespacePath k"
          and n: "map_of (namespaces st) (ns @ CHR ''.'' # k) = None"
          by (auto simp add: consistent_def)
        from register_owned_key [OF old k testNamespacePath_nonempty [OF v]] loop
        have "fullNamespace \<noteq> ns @ CHR ''.'' # k" by auto
        with n ns v show ?thesis by (simp add: update_conv')
      qed
      with a b show ?thesis by blast
    qed
  qed
qed

lemma consistent_update_key:
  assumes "consistent st" and own: "map_of (namespaces st) rn = Some this"
    and key: "testNamespacePath key"
    and free: "map_of (namespaces st) (rn @ CHR ''.'' # key) = None"
    and ns: "namespaces st' = AList.update rn
        (this\<lparr>keyValue := AList.update key e (keyValue this), externalListeners := els\<rparr>)
        (namespaces st)"
  shows "consistent st'"
  unfolding consistent_def
proof (intro allI impI)
  fix n reg
  assume m: "map_of (namespaces st') n = Some reg"
  have dom: "map_of (namespaces st') p = None \<longleftrightarrow> map_of (namespaces st) p = None" for p
    using ns own by (auto simp add: update_conv')
  show "r_namespace reg = n \<and> testNamespacePath n
      \<and> (\<forall>k e. map_of (keyValue reg) k = Some e \<longrightarrow>
            testNamespacePath k \<and> map_of (namespaces st') (n @ CHR ''.'' # k) = None)"
  proof (cases "n = rn")
    case True
    with m ns have reg: "reg = this\<lparr>keyValue := AList.update key e (keyValue this),
        externalListeners := els\<rparr>"
      by (simp add: update_conv')
    from assms(1) own have a: "r_namespace this = rn" and b: "testNamespacePath rn"
      and c: "\<And>k e. map_of (keyValue this) k = Some e \<Longrightarrow>
          testNamespacePath k \<and> map_of (namespaces st) (rn @ CHR ''.'' # k) = None"
      by (auto simp add: consistent_def)
    have "testNamespacePath k \<and> map_of (namespaces st') (n @ CHR ''.'' # k) = None"
      if "map_of (keyValue reg) k = Some e'" for k e'
    proof (cases "k = key")
      case True
      with key free dom \<open>n = rn\<close> show ?thesis by simp
    next
      case False
      with that reg have "map_of (keyValue this) k = Some e'"
        by (simp add: update_conv')
      from c [OF this] dom \<open>n = rn\<close> show ?thesis by simp
    qed
    with a b reg \<open>n = rn\<close> show ?thesis by simp
  next
    case False
    with m ns have old: "map_of (namespaces st) n = Some reg"
      by (simp add: update_conv')
    with assms(1) dom show ?thesis
      by (auto simp add: consistent_def)
  qed
qed

lemma offKey_namespaces [simp]: "namespaces (offKey st ns l) = namespaces st"
  by (simp add: offKey_def split: option.splits)

lemma onKey_namespaces [simp]: "namespaces (onKey st ns l) = namespaces st"
  by (simp add: onKey_def split: option.splits)

lemma checkFullKey_passed:
  assumes "checkFullKey st namespace key remove = (st', True, tr)"
  shows "namespaces st' = namespaces st"
    and "map_of (namespaces st) (concatNamespaceWithKey namespace key) = None"
    and "tr = []"
  using assms by (auto simp add: checkFullKey_def Let_def split: option.splits if_splits)

lemma setValue_committed:
  assumes "setValue n st rn key val loc = Some (st', True, tr)"
  shows "\<exists>this e els. map_of (namespaces st) rn = Some this \<and> testNamespacePath key
    \<and> map_of (namespaces st) (concatNamespaceWithKey (Some (r_namespace this)) key) = None
    \<and> namespaces st' = AList.update rn
        (this\<lparr>keyValue := AList.update key e (keyValue this), externalListeners := els\<rparr>)
        (namespaces st)"
proof -
  from assms obtain this where own: "map_of (namespaces st) rn = Some this"
    by (auto simp add: setValue_def split: option.splits)
  from assms own have key: "testNamespacePath key"
    by (auto simp add: setValue_def split: if_splits)
  obtain st1 ok tr1 where c: "checkFullKey st (Some (r_namespace this)) key True = (st1, ok, tr1)"
    by (cases "checkFullKey st (Some (r_namespace this)) key True") auto
  from assms own key c have ok: "ok"
    by (auto simp add: setValue_def split: if_splits)
  note p = checkFullKey_passed [OF c [unfolded eqTrueI [OF ok]]]
  let ?kv = "case map_of (keyValue this) key of
      Some (Direct t) \<Rightarrow> AList.update key (Direct (AList.update loc val t)) (keyValue this)
    | _ \<Rightarrow> AList.update key (Direct [(loc, val)]) (keyValue this)"
  let ?p = "case map_of (externalListeners this) key of
      None \<Rightarrow> (st1, externalListeners this)
    | Some (ns, ls) \<Rightarrow> (offKey st1 ns ls, AList.delete key (externalListeners this))"
  let ?st3 = "(fst ?p)\<lparr>namespaces :=
      AList.update rn (this\<lparr>keyValue := ?kv, externalListeners := snd ?p\<rparr>) (namespaces (fst ?p))\<rparr>"
  from assms own key c ok obtain tr4 where
    "changeKey n ?st3 (r_namespace this) key = Some (st', tr4)"
    by (auto simp add: setValue_def Let_def case_prod_beta split: option.splits)
  from changeKey_keeps(2) [OF this]
  have a: "namespaces st' = AList.update rn (this\<lparr>keyValue := ?kv, externalListeners := snd ?p\<rparr>)
      (namespaces (fst ?p))"
    by simp
  have b: "namespaces (fst ?p) = namespaces st"
    using p(1) by (simp split: option.splits prod.splits)
  have "\<exists>e. ?kv = AList.update key e (keyValue this)"
    by (auto split: option.splits key_entry.splits)
  then obtain e where e: "?kv = AList.update key e (keyValue this)" ..
  from a b e have "namespaces st' = AList.update rn
      (this\<lparr>keyValue := AList.update key e (keyValue this), externalListeners := snd ?p\<rparr>)
      (namespaces st)"
    by simp
  with own key p(2) show ?thesis
    by (intro exI [of _ this] exI [of _ e] exI [of _ "snd ?p"]) simp
qed

lemma use_committed:
  assumes "use n cfg st rn key externalFullKey = Some (st', True, tr)"
  shows "st' = st \<or> (\<exists>this e els. map_of (namespaces st) rn = Some this \<and> testNamespacePath key
    \<and> map_of (namespaces st) (concatNamespaceWithKey (Some (r_namespace this)) key) = None
    \<and> namespaces st' = AList.update rn
        (this\<lparr>keyValue := AList.update key e (keyValue this), externalListeners := els\<rparr>)
        (namespaces st))"
proof (cases "st' = st")
  case True
  then show ?thesis by simp
next
  case False
  from assms obtain this where own: "map_of (namespaces st) rn = Some this"
    by (auto simp add: use_def split: option.splits)
  from assms own False have key: "testNamespacePath key"
    by (auto simp add: use_def split: if_splits)
  from assms own False obtain st1 tr1 st2 tr2 tr3 ns partKey where
    c1: "checkFullKey st None externalFullKey False = (st1, True, tr1)"
    and c2: "checkFullKey st1 (Some (r_namespace this)) key True = (st2, True, tr2)"
    and s: "setExternalKey n st2 rn this key externalFullKey ns partKey = Some (st', tr3)"
    by (auto simp add: use_def Let_def split: option.splits if_splits prod.splits)
  note p1 = checkFullKey_passed [OF c1]
  note p2 = checkFullKey_passed [OF c2]
  let ?st1 = "case map_of (externalListeners this) key of
      None \<Rightarrow> st2 | Some (ns', ls') \<Rightarrow> offKey st2 ns' ls'"
  let ?ls = "Listener (r_namespace this) key partKey"
  let ?reg = "this\<lparr>keyValue := AList.update key (Borrow externalFullKey) (keyValue this),
      externalListeners := AList.update key (ns, ?ls) (externalListeners this)\<rparr>"
  from s have "changeKey n ((onKey ?st1 ns ?ls)\<lparr>namespaces :=
      AList.update rn ?reg (namespaces (onKey ?st1 ns ?ls))\<rparr>) (r_namespace this) key
      = Some (st', tr3)"
    by (simp add: setExternalKey_def Let_def)
  from changeKey_keeps(2) [OF this]
  have a: "namespaces st' = AList.update rn ?reg (namespaces ?st1)"
    by simp
  have b: "namespaces ?st1 = namespaces st"
    using p1(1) p2(1) by (simp split: option.splits prod.splits)
  have "map_of (namespaces st) (concatNamespaceWithKey (Some (r_namespace this)) key) = None"
    using p1(1) p2(2) by simp
  with own key a b show ?thesis
    by (intro disjI2 exI [of _ this] exI [of _ "Borrow externalFullKey"]
        exI [of _ "AList.update key (ns, ?ls) (externalListeners this)"]) simp
qed

lemma getValue_namespaces:
  "getValue n cfg st namespace key = Some (st', v, tr) \<Longrightarrow> namespaces st' = namespaces st"
  by (auto simp add: getValue_def handleKey_def Let_def split: option.splits if_splits)

lemma changeLocale_namespaces:
  "changeLocale cfg st l = (st', r, tr) \<Longrightarrow> namespaces st' = namespaces st"
  by (auto simp add: changeLocale_def split: if_splits)

lemma consistent_concat:
  assumes "consistent st" and "map_of (namespaces st) rn = Some this"
  shows "concatNamespaceWithKey (Some (r_namespace this)) key = rn @ CHR ''.'' # key"
  using assms by (auto simp add: consistent_def dest: testNamespacePath_nonempty)

lemma consistent_step:
  assumes "consistent st" and "step n cfg st c = Some (st', r, tr)"
  shows "consistent st'"
proof (cases c)
  case (Register fullNamespace)
  with assms show ?thesis
    by (auto split: prod.splits dest: consistent_register)
next
  case (SetValue rn key val loc)
  with assms(2) obtain b where s: "setValue n st rn key val loc = Some (st', b, tr)"
    by (auto split: option.splits)
  show ?thesis
  proof (cases b)
    case True
    with s setValue_committed [of n st rn key val loc st' tr] obtain this e els where
      "map_of (namespaces st) rn = Some this" "testNamespacePath key"
      "map_of (namespaces st) (concatNamespaceWithKey (Some (r_namespace this)) key) = None"
      "namespaces st' = AList.update rn
        (this\<lparr>keyValue := AList.update key e (keyValue this), externalListeners := els\<rparr>)
        (namespaces st)"
      by auto
    with assms(1) consistent_concat [OF assms(1), of rn this key] show ?thesis
      by (auto intro: consistent_update_key)
  next
    case False
    with s setValue_failed [of n st rn key val loc st' tr] assms(1) show ?thesis by simp
  qed
next
  case (Use rn key externalFullKey)
  with assms(2) obtain b where s: "use n cfg st rn key externalFullKey = Some (st', b, tr)"
    by (auto split: option.splits)
  show ?thesis
  proof (cases b)
    case True
    with s use_committed [of n cfg st rn key externalFullKey st' tr]
    consider "st' = st" | this e els where
      "map_of (namespaces st) rn = Some this" "testNamespacePath key"
      "map_of (namespaces st) (concatNamespaceWithKey (Some (r_namespace this)) key) = None"
      "namespaces st' = AList.update rn
        (this\<lparr>keyValue := AList.update key e (keyValue this), externalListeners := els\<rparr>)
        (namespaces st)"
      by auto
    then show ?thesis
    proof cases
      case 1
      with assms(1) show ?thesis by simp
    next
      case 2
      with assms(1) consistent_concat [OF assms(1), of rn this key] show ?thesis
        by (auto intro: consistent_update_key)
    qed
  next
    case False
    with s use_failed [of n cfg st rn key externalFullKey st' tr] assms(1) show ?thesis by simp
  qed
next
  case (GetValue namespace key)
  with assms show ?thesis
    by (auto split: option.splits dest!: getValue_namespaces intro: consistent_namespaces)
next
  case (ChangeLocale l)
  with assms show ?thesis
    by (auto split: prod.splits dest!: changeLocale_namespaces intro: consistent_namespaces)
qed

lemma reachable_consistent: "reachable cfg st \<Longrightarrow> consistent st"
  by (induction rule: reachable.induct) (auto intro: consistent_init consistent_step)

text \<open>The search raises the error flag exactly when it reports an error.\<close>

lemma findLoop_flag:
  assumes "\<And>loc k c c' t r. findv loc k c = Some (c', t, r) \<Longrightarrow> v_error c' = (v_error c \<or> t \<noteq> [])"
  shows "findLoop (registryGetValue findv cfg) st loc cs ctx = Some (ctx', tr, r) \<Longrightarrow>
    v_error ctx' = (v_error ctx \<or> tr \<noteq> [])"
proof (induction cs arbitrary: ctx ctx' tr r)
  case Nil
  then show ?case by simp
next
  case (Cons c cs)
  show ?case
  proof (cases "map_of (namespaces st) (fst c)")
    case None
    with Cons show ?thesis by simp
  next
    case reg: (Some reg)
    show ?thesis
    proof (cases "visitKey ctx (fst c) (snd c)")
      case None
      with reg Cons.prems obtain t where
        "findLoop (registryGetValue findv cfg) st loc cs (ctx\<lparr>v_error := True\<rparr>) = Some (ctx', t, r)"
        and "tr = Report (CircularDependencyError (v_namespace ctx) (v_key ctx)
                            (r_namespace reg) (snd c)) # t"
        by (auto split: option.splits)
      with Cons.IH [of "ctx\<lparr>v_error := True\<rparr>" ctx' t r] show ?thesis by simp
    next
      case vs: (Some vs)
      let ?ctx1 = "ctx\<lparr>visited := AList.update (fst c) vs (visited ctx)\<rparr>"
      from reg vs Cons.prems obtain c2 t2 r2 where
        g: "registryGetValue findv cfg reg loc (snd c) ?ctx1 = Some (c2, t2, r2)"
        by (auto split: option.splits)
      then have f2: "v_error c2 = (v_error ctx \<or> t2 \<noteq> [])"
        by (auto simp add: registryGetValue_def split: option.splits key_entry.splits if_splits
            dest: assms)
      show ?thesis
      proof (cases r2)
        case None
        with reg vs g Cons.prems obtain t3 where
          "findLoop (registryGetValue findv cfg) st loc cs c2 = Some (ctx', t3, r)"
          and "tr = t2 @ t3"
          by (auto split: option.splits)
        with Cons.IH [of c2 ctx' t3 r] f2 show ?thesis by auto
      next
        case (Some v)
        with reg vs g f2 Cons.prems show ?thesis by auto
      qed
    qed
  qed
qed

lemma findValue_flag:
  "findValue n cfg st loc fullKey ctx = Some (ctx', tr, r) \<Longrightarrow>
     v_error ctx' = (v_error ctx \<or> tr \<noteq> [])"
proof (induction n arbitrary: loc fullKey ctx ctx' tr r)
  case 0
  then show ?case by simp
next
  case (Suc n)
  from Suc.prems
  have "findLoop (registryGetValue (findValue n cfg st) cfg) st loc (splitKeyByNamespace fullKey) ctx
      = Some (ctx', tr, r)"
    by simp
  then show ?case
    by (rule findLoop_flag [rotated]) (rule Suc.IH)
qed

text \<open>Paths: a well-formed path with a namespace in front has a well-formed key behind the
  dot, and its first dot has something on both sides.\<close>

lemma has_dotdot_append: "has_dotdot ys \<Longrightarrow> has_dotdot (xs @ ys)"
proof (induction xs)
  case Nil
  then show ?case by simp
next
  case (Cons x xs)
  then have "has_dotdot (xs @ ys)" by simp
  then show ?case
    by (cases "xs @ ys") simp_all
qed

lemma testNamespacePath_key:
  assumes "testNamespacePath (ns @ CHR ''.'' # k)"
  shows "testNamespacePath k"
proof -
  from assms have d: "\<not> has_dotdot (ns @ CHR ''.'' # k)"
    and l: "last (ns @ CHR ''.'' # k) \<noteq> CHR ''.''"
    by (simp_all add: testNamespacePath_def reTestNamespacePathError_def)
  from l have ne: "k \<noteq> []" by auto
  with l have "last k \<noteq> CHR ''.''" by simp
  moreover have "hd k \<noteq> CHR ''.''"
  proof
    assume "hd k = CHR ''.''"
    with ne obtain k' where "k = CHR ''.'' # k'" by (cases k) auto
    then have "has_dotdot (CHR ''.'' # k)" by simp
    then have "has_dotdot (ns @ CHR ''.'' # k)" by (rule has_dotdot_append)
    with d show False by simp
  qed
  moreover have "\<not> has_dotdot k"
  proof
    assume "has_dotdot k"
    then have "has_dotdot ((ns @ [CHR ''.'']) @ k)" by (rule has_dotdot_append)
    with d show False by simp
  qed
  ultimately show ?thesis
    using ne by (simp add: testNamespacePath_def reTestNamespacePathError_def)
qed

lemma indexOf_dot_Some:
  "indexOf_dot s = Some i \<Longrightarrow> i < length s \<and> s ! i = CHR ''.''"
proof (induction s arbitrary: i)
  case Nil
  then show ?case by simp
next
  case (Cons c cs)
  then show ?case
    by (cases "c = CHR ''.''") auto
qed

lemma indexOf_dot_parts:
  assumes "testNamespacePath s" and "indexOf_dot s = Some i"
  shows "\<not> i < 1" and "take i s \<noteq> []" and "drop (i + 1) s \<noteq> []"
proof -
  from assms(1) have ne: "s \<noteq> []" and h: "hd s \<noteq> CHR ''.''" and l: "last s \<noteq> CHR ''.''"
    by (auto simp add: testNamespacePath_def reTestNamespacePathError_def)
  from indexOf_dot_Some [OF assms(2)] have i: "i < length s" and d: "s ! i = CHR ''.''"
    by simp_all
  have "i \<noteq> 0"
  proof
    assume "i = 0"
    with d ne have "hd s = CHR ''.''" by (simp add: hd_conv_nth)
    with h show False by simp
  qed
  then show "\<not> i < 1" by simp
  with ne show "take i s \<noteq> []" by simp
  have "i \<noteq> length s - 1"
  proof
    assume "i = length s - 1"
    with d ne have "last s = CHR ''.''" by (simp add: last_conv_nth)
    with l show False by simp
  qed
  with i show "drop (i + 1) s \<noteq> []" by simp
qed


lemma has_dotdot_append_iff:
  "has_dotdot (a @ b) \<longleftrightarrow>
     has_dotdot a \<or> has_dotdot b \<or> (a \<noteq> [] \<and> b \<noteq> [] \<and> last a = CHR ''.'' \<and> hd b = CHR ''.'')"
proof (induction a)
  case Nil
  then show ?case by simp
next
  case (Cons x xs)
  show ?case
  proof (cases xs)
    case Nil
    then show ?thesis by (cases b) auto
  next
    case (Cons z zs)
    with Cons.IH show ?thesis by auto
  qed
qed

lemma testNamespacePath_concat:
  assumes "testNamespacePath ns" and "testNamespacePath k"
  shows "testNamespacePath (ns @ CHR ''.'' # k)"
proof -
  from assms have a: "ns \<noteq> []" "hd ns \<noteq> CHR ''.''" "last ns \<noteq> CHR ''.''" "\<not> has_dotdot ns"
    and b: "k \<noteq> []" "hd k \<noteq> CHR ''.''" "last k \<noteq> CHR ''.''" "\<not> has_dotdot k"
    by (auto simp add: testNamespacePath_def reTestNamespacePathError_def)
  from b have "\<not> has_dotdot (CHR ''.'' # k)"
    by (cases k) auto
  with a have "\<not> has_dotdot (ns @ CHR ''.'' # k)"
    by (simp add: has_dotdot_append_iff)
  with a b show ?thesis
    by (simp add: testNamespacePath_def reTestNamespacePathError_def)
qed

lemma reachable_run:
  "reachable cfg s0 \<Longrightarrow> run n cfg s0 calls = Some (st, outs) \<Longrightarrow> reachable cfg st"
proof (induction calls arbitrary: s0 outs)
  case Nil
  then show ?case by simp
next
  case (Cons c calls)
  from Cons.prems(2) obtain s1 r tr outs' where
    s: "step n cfg s0 c = Some (s1, r, tr)" and r: "run n cfg s1 calls = Some (st, outs')"
    by (auto split: option.splits prod.splits)
  from Cons.prems(1) s have "reachable cfg s1" by (rule reachable.call)
  from Cons.IH [OF this r] show ?case .
qed

text \<open>\<open>register\<close> of the full path of a key some registry owns.\<close>

lemma register_key_path:
  assumes c: "consistent st" and own: "map_of (namespaces st) ns = Some this"
    and key: "map_of (keyValue this) k = Some e"
  shows "\<exists>other key. register st (ns @ CHR ''.'' # k)
           = (st, None, [Report (IntersectionNsError (ns @ CHR ''.'' # k) other key)])"
proof -
  from c own key have v: "testNamespacePath ns" "testNamespacePath k"
    and free: "map_of (namespaces st) (ns @ CHR ''.'' # k) = None"
    by (auto simp add: consistent_def)
  from register_owned_key [OF own key testNamespacePath_nonempty [OF v(2)]]
  obtain other key' where
    "registerLoop st (ns @ CHR ''.'' # k) (splitKeyByNamespace (ns @ CHR ''.'' # k))
       = Some (IntersectionNsError (ns @ CHR ''.'' # k) other key')"
    by blast
  with free testNamespacePath_concat [OF v] show ?thesis
    by (simp add: register_def)
qed

text \<open>\<open>setValue\<close> and \<open>use\<close> of a key whose full path is a registered namespace.\<close>

lemma setValue_namespace_path:
  assumes c: "consistent st" and own: "map_of (namespaces st) ns = Some this"
    and reg: "map_of (namespaces st) (ns @ CHR ''.'' # k) = Some that"
  shows "setValue n st ns k val loc
           = Some (st, False, [Report (IntersectionError (Some ns) k (ns @ CHR ''.'' # k))])"
proof -
  from c own have a: "r_namespace this = ns" "ns \<noteq> []"
    by (auto simp add: consistent_def dest: testNamespacePath_nonempty)
  from c reg have b: "r_namespace that = ns @ CHR ''.'' # k" "testNamespacePath (ns @ CHR ''.'' # k)"
    by (auto simp add: consistent_def)
  from testNamespacePath_key [OF b(2)] own reg a b(1) show ?thesis
    by (simp add: setValue_def checkFullKey_def)
qed

lemma use_namespace_path:
  assumes c: "consistent st" and own: "map_of (namespaces st) ns = Some this"
    and reg: "map_of (namespaces st) (ns @ CHR ''.'' # k) = Some that"
  shows "use n cfg st ns k ext =
     (if \<not> testNamespacePath ext \<or> indexOf_dot ext = None
      then Some (st, False, [Report (KeyError None ext)])
      else if ns @ CHR ''.'' # k = ext
      then Some (st, False, [Report (CircularDependencyError None ext ns k)])
      else
        (case findValue n cfg st (s_locale st) ext
                \<lparr>v_namespace = None, v_key = k, visited = [(ns, [k])], v_error = False\<rparr> of
           None \<Rightarrow> None
         | Some (ctx, tr, r) \<Rightarrow>
             if v_error ctx then Some (st, False, tr)
             else Some (st, False,
                        tr @ [Report (case map_of (namespaces st) ext of
                                        None \<Rightarrow> IntersectionError (Some ns) k (ns @ CHR ''.'' # k)
                                      | Some other \<Rightarrow> IntersectionError None ext ext)])))"
proof -
  from c own have a: "r_namespace this = ns" "ns \<noteq> []"
    by (auto simp add: consistent_def dest: testNamespacePath_nonempty)
  from c reg have b: "r_namespace that = ns @ CHR ''.'' # k" "testNamespacePath (ns @ CHR ''.'' # k)"
    by (auto simp add: consistent_def)
  note key = testNamespacePath_key [OF b(2)]
  from c own reg have nokey: "map_of (keyValue this) k = None"
    by (cases "map_of (keyValue this) k") (auto simp add: consistent_def)
  show ?thesis
  proof (cases "\<not> testNamespacePath ext \<or> indexOf_dot ext = None")
    case True
    with own nokey key show ?thesis
      by (auto simp add: use_def)
  next
    case False
    then obtain i where v: "testNamespacePath ext" and i: "indexOf_dot ext = Some i"
      by auto
    note parts = indexOf_dot_parts [OF v i]
    have other: "r_namespace other = ext" if "map_of (namespaces st) ext = Some other" for other
      using c that by (auto simp add: consistent_def)
    show ?thesis
    proof (cases "ns @ CHR ''.'' # k = ext")
      case True
      with own nokey key v i parts a show ?thesis
        by (simp add: use_def Let_def)
    next
      case False
      with own nokey key v i parts a reg b(1) other show ?thesis
        by (auto simp add: use_def Let_def checkFullKey_def split: option.splits)
    qed
  qed
qed

text \<open>The search reports nothing but circular dependencies, all for the origin of its
  context.\<close>

lemma findLoop_reports:
  assumes "\<And>loc k c c' t r. findv loc k c = Some (c', t, r) \<Longrightarrow>
      v_namespace c' = v_namespace c \<and> v_key c' = v_key c
      \<and> list_all (cycleReport (v_namespace c) (v_key c)) t"
  shows "findLoop (registryGetValue findv cfg) st loc cs ctx = Some (ctx', tr, r) \<Longrightarrow>
    v_namespace ctx' = v_namespace ctx \<and> v_key ctx' = v_key ctx
    \<and> list_all (cycleReport (v_namespace ctx) (v_key ctx)) tr"
proof (induction cs arbitrary: ctx ctx' tr r)
  case Nil
  then show ?case by simp
next
  case (Cons c cs)
  show ?case
  proof (cases "map_of (namespaces st) (fst c)")
    case None
    with Cons show ?thesis by simp
  next
    case reg: (Some reg)
    show ?thesis
    proof (cases "visitKey ctx (fst c) (snd c)")
      case None
      with reg Cons.prems obtain t where
        "findLoop (registryGetValue findv cfg) st loc cs (ctx\<lparr>v_error := True\<rparr>) = Some (ctx', t, r)"
        and "tr = Report (CircularDependencyError (v_namespace ctx) (v_key ctx)
                            (r_namespace reg) (snd c)) # t"
        by (auto split: option.splits)
      with Cons.IH [of "ctx\<lparr>v_error := True\<rparr>" ctx' t r] show ?thesis by simp
    next
      case vs: (Some vs)
      let ?ctx1 = "ctx\<lparr>visited := AList.update (fst c) vs (visited ctx)\<rparr>"
      from reg vs Cons.prems obtain c2 t2 r2 where
        g: "registryGetValue findv cfg reg loc (snd c) ?ctx1 = Some (c2, t2, r2)"
        by (auto split: option.splits)
      then have f2: "v_namespace c2 = v_namespace ctx \<and> v_key c2 = v_key ctx
          \<and> list_all (cycleReport (v_namespace ctx) (v_key ctx)) t2"
        by (auto simp add: registryGetValue_def split: option.splits key_entry.splits if_splits
            dest: assms)
      show ?thesis
      proof (cases r2)
        case None
        with reg vs g Cons.prems obtain t3 where
          "findLoop (registryGetValue findv cfg) st loc cs c2 = Some (ctx', t3, r)"
          and "tr = t2 @ t3"
          by (auto split: option.splits)
        with Cons.IH [of c2 ctx' t3 r] f2 show ?thesis by auto
      next
        case (Some v)
        with reg vs g f2 Cons.prems show ?thesis by auto
      qed
    qed
  qed
qed

lemma findValue_reports:
  "findValue n cfg st loc fullKey ctx = Some (ctx', tr, r) \<Longrightarrow>
     v_namespace ctx' = v_namespace ctx \<and> v_key ctx' = v_key ctx
     \<and> list_all (cycleReport (v_namespace ctx) (v_key ctx)) tr"
proof (induction n arbitrary: loc fullKey ctx ctx' tr r)
  case 0
  then show ?case by simp
next
  case (Suc n)
  from Suc.prems
  have "findLoop (registryGetValue (findValue n cfg st) cfg) st loc (splitKeyByNamespace fullKey) ctx
      = Some (ctx', tr, r)"
    by simp
  then show ?case
    by (rule findLoop_reports [rotated]) (rule Suc.IH)
qed

lemma indexOf_dot_concat: "indexOf_dot (ns @ CHR ''.'' # k) \<noteq> None"
  by (induction ns) auto

text \<open>
  C7, as the code has it. In a reachable state, for a registry at \<open>ns\<close>: when the registry
  owns a key \<open>k\<close>, direct or borrowed, \<open>register\<close> of \<open>ns.k\<close> returns null, reports
  \<open>IntersectionNsError\<close> and changes nothing. When \<open>ns.k\<close> is a registered namespace,
  \<open>setValue\<close> of \<open>k\<close> returns false, reports \<open>IntersectionError\<close> and changes nothing, and
  \<open>use\<close> of \<open>k\<close> returns false with a report and changes nothing, whatever the external key.
  The report of \<open>use\<close> is that of the first check that fails, in the order of the code:
  \<open>KeyError\<close> for an external key that is not a well-formed path or has no dot;
  \<open>CircularDependencyError\<close> for the external key \<open>ns.k\<close> itself; the reports of the cycle
  simulation, all of them \<open>CircularDependencyError\<close> for the key \<open>k\<close>, when it raises the
  error flag; and \<open>IntersectionError\<close> only when none of these checks fails.
\<close>

theorem namespace_key_intersection:
  assumes "reachable cfg st" and "map_of (namespaces st) ns = Some this"
  shows
    "(map_of (keyValue this) k = Some e \<longrightarrow>
        (\<exists>other key. register st (ns @ CHR ''.'' # k)
           = (st, None, [Report (IntersectionNsError (ns @ CHR ''.'' # k) other key)])))
     \<and> (map_of (namespaces st) (ns @ CHR ''.'' # k) = Some that \<longrightarrow>
          setValue n st ns k val loc
            = Some (st, False, [Report (IntersectionError (Some ns) k (ns @ CHR ''.'' # k))])
          \<and> (keyCount st < n \<longrightarrow>
                (\<exists>tr. use n cfg st ns k ext = Some (st, False, tr) \<and> tr \<noteq> []))
          \<and> (\<not> testNamespacePath ext \<or> indexOf_dot ext = None \<longrightarrow>
                use n cfg st ns k ext = Some (st, False, [Report (KeyError None ext)]))
          \<and> (ext = ns @ CHR ''.'' # k \<longrightarrow>
                use n cfg st ns k ext
                  = Some (st, False, [Report (CircularDependencyError None ext ns k)]))
          \<and> (testNamespacePath ext \<and> indexOf_dot ext \<noteq> None \<and> ext \<noteq> ns @ CHR ''.'' # k
               \<and> keyCount st < n \<longrightarrow>
                (\<exists>ctx tr r.
                   findValue n cfg st (s_locale st) ext
                      \<lparr>v_namespace = None, v_key = k, visited = [(ns, [k])], v_error = False\<rparr>
                     = Some (ctx, tr, r)
                   \<and> (if v_error ctx
                       then tr \<noteq> [] \<and> list_all (cycleReport None k) tr
                            \<and> use n cfg st ns k ext = Some (st, False, tr)
                       else use n cfg st ns k ext
                              = Some (st, False,
                                      [Report (case map_of (namespaces st) ext of
                                                 None \<Rightarrow> IntersectionError (Some ns) k (ns @ CHR ''.'' # k)
                                               | Some other \<Rightarrow> IntersectionError None ext ext)])))))"
proof -
  from assms(1) have c: "consistent st" by (rule reachable_consistent)
  let ?ctx0 = "\<lparr>v_namespace = None, v_key = k, visited = [(ns, [k])], v_error = False\<rparr>"
  let ?full = "ns @ CHR ''.'' # k"
  let ?inter = "Report (case map_of (namespaces st) ext of
                          None \<Rightarrow> IntersectionError (Some ns) k ?full
                        | Some other \<Rightarrow> IntersectionError None ext ext)"
  have one: "\<exists>other key. register st ?full
      = (st, None, [Report (IntersectionNsError ?full other key)])"
    if "map_of (keyValue this) k = Some e"
    using c assms(2) that by (rule register_key_path)
  have two: "setValue n st ns k val loc
      = Some (st, False, [Report (IntersectionError (Some ns) k ?full)])"
    if "map_of (namespaces st) ?full = Some that"
    using c assms(2) that by (rule setValue_namespace_path)
  have search: "\<exists>ctx tr r. findValue n cfg st (s_locale st) ext ?ctx0 = Some (ctx, tr, r)
      \<and> v_error ctx = (tr \<noteq> []) \<and> list_all (cycleReport None k) tr"
    if n: "keyCount st < n"
  proof -
    from n card_unvisited [of st ?ctx0] have "card (unvisited st ?ctx0) < n" by simp
    from findValue_returns [OF this, of cfg "s_locale st" ext] obtain ctx' t' r' where
      f: "findValue n cfg st (s_locale st) ext ?ctx0 = Some (ctx', t', r')"
      by blast
    from findValue_flag [OF f] have "v_error ctx' = (t' \<noteq> [])" by simp
    moreover from findValue_reports [OF f] have "list_all (cycleReport None k) t'" by simp
    ultimately show ?thesis using f by blast
  qed
  have three: "\<exists>tr. use n cfg st ns k ext = Some (st, False, tr) \<and> tr \<noteq> []"
    if reg: "map_of (namespaces st) ?full = Some that" and n: "keyCount st < n"
  proof -
    from search [OF n] obtain ctx' t' r' where
      "findValue n cfg st (s_locale st) ext ?ctx0 = Some (ctx', t', r')"
      and "v_error ctx' = (t' \<noteq> [])"
      by blast
    then show ?thesis
      by (simp add: use_namespace_path [OF c assms(2) reg])
  qed
  have four: "use n cfg st ns k ext = Some (st, False, [Report (KeyError None ext)])"
    if reg: "map_of (namespaces st) ?full = Some that"
      and "\<not> testNamespacePath ext \<or> indexOf_dot ext = None"
    using that(2) by (simp add: use_namespace_path [OF c assms(2) reg])
  have five: "use n cfg st ns k ext
      = Some (st, False, [Report (CircularDependencyError None ext ns k)])"
    if reg: "map_of (namespaces st) ?full = Some that" and e: "ext = ?full"
  proof -
    from c reg have "testNamespacePath ?full"
      by (auto simp add: consistent_def)
    with e indexOf_dot_concat [of ns k] show ?thesis
      by (simp add: use_namespace_path [OF c assms(2) reg])
  qed
  have six: "\<exists>ctx tr r. findValue n cfg st (s_locale st) ext ?ctx0 = Some (ctx, tr, r)
      \<and> (if v_error ctx
          then tr \<noteq> [] \<and> list_all (cycleReport None k) tr
               \<and> use n cfg st ns k ext = Some (st, False, tr)
          else use n cfg st ns k ext = Some (st, False, [?inter]))"
    if reg: "map_of (namespaces st) ?full = Some that"
      and v: "testNamespacePath ext" "indexOf_dot ext \<noteq> None" "ext \<noteq> ?full"
      and n: "keyCount st < n"
  proof -
    from search [OF n] obtain ctx' t' r' where
      f: "findValue n cfg st (s_locale st) ext ?ctx0 = Some (ctx', t', r')"
      and g: "v_error ctx' = (t' \<noteq> [])" and h: "list_all (cycleReport None k) t'"
      by blast
    have u: "use n cfg st ns k ext
        = (if v_error ctx' then Some (st, False, t') else Some (st, False, t' @ [?inter]))"
    proof -
      from v(2) obtain i where "indexOf_dot ext = Some i" by auto
      with v(1,3) f show ?thesis
        by (simp add: use_namespace_path [OF c assms(2) reg])
    qed
    show ?thesis
    proof (intro exI conjI)
      show "findValue n cfg st (s_locale st) ext ?ctx0 = Some (ctx', t', r')" by (rule f)
      show "if v_error ctx'
          then t' \<noteq> [] \<and> list_all (cycleReport None k) t'
               \<and> use n cfg st ns k ext = Some (st, False, t')
          else use n cfg st ns k ext = Some (st, False, [?inter])"
        using g h u by simp
    qed
  qed
  show ?thesis
  proof (intro conjI impI)
    assume "map_of (keyValue this) k = Some e"
    then show "\<exists>other key. register st ?full
        = (st, None, [Report (IntersectionNsError ?full other key)])"
      by (rule one)
  next
    assume "map_of (namespaces st) ?full = Some that"
    then show "setValue n st ns k val loc
        = Some (st, False, [Report (IntersectionError (Some ns) k ?full)])"
      by (rule two)
  next
    assume "map_of (namespaces st) ?full = Some that" and "keyCount st < n"
    then show "\<exists>tr. use n cfg st ns k ext = Some (st, False, tr) \<and> tr \<noteq> []"
      by (rule three)
  next
    assume "map_of (namespaces st) ?full = Some that"
      and "\<not> testNamespacePath ext \<or> indexOf_dot ext = None"
    then show "use n cfg st ns k ext = Some (st, False, [Report (KeyError None ext)])"
      by (rule four)
  next
    assume "map_of (namespaces st) ?full = Some that" and "ext = ?full"
    then show "use n cfg st ns k ext
        = Some (st, False, [Report (CircularDependencyError None ext ns k)])"
      by (rule five)
  next
    assume reg: "map_of (namespaces st) ?full = Some that"
      and "testNamespacePath ext \<and> indexOf_dot ext \<noteq> None \<and> ext \<noteq> ?full \<and> keyCount st < n"
    then have "testNamespacePath ext" "indexOf_dot ext \<noteq> None" "ext \<noteq> ?full" "keyCount st < n"
      by simp_all
    with reg show "\<exists>ctx tr r. findValue n cfg st (s_locale st) ext ?ctx0 = Some (ctx, tr, r)
        \<and> (if v_error ctx
            then tr \<noteq> [] \<and> list_all (cycleReport None k) tr
                 \<and> use n cfg st ns k ext = Some (st, False, tr)
            else use n cfg st ns k ext = Some (st, False, [?inter]))"
      by (rule six)
  qed
qed

lemma cross_paths:
  "testNamespacePath ''settings''" "testNamespacePath ''x''" "testNamespacePath ''y''"
  "testNamespacePath ''foo''" "testNamespacePath ''settings.foo''" "testNamespacePath ''x.y''"
  "testNamespacePath ''control.ok''" "testNamespacePath ''a.b''" "testNamespacePath ''c''"
  "splitKeyByNamespace ''settings'' = []" "splitKeyByNamespace ''x'' = []"
  "splitKeyByNamespace ''a.b'' = [(''a'', ''b'')]"
  "splitKeyByNamespace ''a.b.c'' = [(''a'', ''b.c''), (''a.b'', ''c'')]"
  "splitKeyByNamespace ''settings.foo'' = [(''settings'', ''foo'')]"
  "splitKeyByNamespace ''x.y'' = [(''x'', ''y'')]"
  "splitKeyByNamespace ''control.ok'' = [(''control'', ''ok'')]"
  "indexOf_dot ''settings.foo'' = Some 8" "indexOf_dot ''x.y'' = Some 1"
  "indexOf_dot ''control.ok'' = Some 7"
  by code_simp+

lemma crossState_run:
  "run 2 (stringConfig ''ru_ru'' [] ''__DEV_ERROR__'') (init ''ru_ru'')
     [Register ''settings'', Register ''x'', Use ''x'' ''y'' ''settings.foo'',
      Register ''settings.foo'']
   = Some (crossState,
           [(Registry (Some ''settings''), []), (Registry (Some ''x''), []),
            (Flag True, [EmitKey ''x'' ''y'']), (Registry (Some ''settings.foo''), [])])"
  by (simp add: model_defs fuel_numeral cross_paths crossState_def Let_def)

lemma crossState_cycle:
  "use 4 (stringConfig ''ru_ru'' [] ''__DEV_ERROR__'') crossState ''settings'' ''foo'' ''x.y''
   = Some (crossState, False, [Report (CircularDependencyError None ''foo'' ''settings'' ''foo'')])"
  by (simp add: use_def registryGetValue_def visitKey_def fuel_numeral cross_paths
      crossState_def Let_def)

text \<open>
  C7, the claim as stated, at a concrete input. \<open>settings.foo\<close> is a registered namespace, so
  the full path of the key \<open>foo\<close> of \<open>settings\<close> equals a registered namespace; borrowing it
  from \<open>x.y\<close> fails, and the only error reported is \<open>CircularDependencyError\<close>, from the cycle
  simulation that runs before the intersection check.
\<close>

theorem borrow_on_namespace_path_reports_cycle:
  "run 2 (stringConfig ''ru_ru'' [] ''__DEV_ERROR__'') (init ''ru_ru'')
     [Register ''settings'', Register ''x'', Use ''x'' ''y'' ''settings.foo'',
      Register ''settings.foo'']
   = Some (crossState,
           [(Registry (Some ''settings''), []), (Registry (Some ''x''), []),
            (Flag True, [EmitKey ''x'' ''y'']), (Registry (Some ''settings.foo''), [])])
   \<and> map_of (namespaces crossState) ''settings.foo''
       = Some \<lparr>r_namespace = ''settings.foo'', keyValue = [], externalListeners = []\<rparr>
   \<and> use 4 (stringConfig ''ru_ru'' [] ''__DEV_ERROR__'') crossState ''settings'' ''foo'' ''x.y''
       = Some (crossState, False,
               [Report (CircularDependencyError None ''foo'' ''settings'' ''foo'')])"
  using crossState_run crossState_cycle by (simp add: crossState_def)

theorem namespace_key_intersection_witness:
  "(\<exists>other key. register ownerState ''a.b.c''
       = (ownerState, None, [Report (IntersectionNsError ''a.b.c'' other key)]))
   \<and> setValue 4 crossState ''settings'' ''foo'' ''Some Text'' ''ru_ru''
       = Some (crossState, False,
               [Report (IntersectionError (Some ''settings'') ''foo'' ''settings.foo'')])
   \<and> use 4 (stringConfig ''ru_ru'' [] ''__DEV_ERROR__'') crossState ''settings'' ''foo'' ''x..y''
       = Some (crossState, False, [Report (KeyError None ''x..y'')])
   \<and> use 4 (stringConfig ''ru_ru'' [] ''__DEV_ERROR__'') crossState ''settings'' ''foo'' ''settings.foo''
       = Some (crossState, False,
               [Report (CircularDependencyError None ''settings.foo'' ''settings'' ''foo'')])
   \<and> use 4 (stringConfig ''ru_ru'' [] ''__DEV_ERROR__'') crossState ''settings'' ''foo'' ''x.y''
       = Some (crossState, False,
               [Report (CircularDependencyError None ''foo'' ''settings'' ''foo'')])
   \<and> use 4 (stringConfig ''ru_ru'' [] ''__DEV_ERROR__'') crossState ''settings'' ''foo'' ''control.ok''
       = Some (crossState, False,
               [Report (IntersectionError (Some ''settings'') ''foo'' ''settings.foo'')])
   \<and> setValue 4 loopState ''a'' ''b'' ''v'' ''en''
       = Some (loopState, False, [Report (IntersectionError (Some ''a'') ''b'' ''a.b'')])
   \<and> use 4 (stringConfig ''en'' [] ''?'') loopState ''a'' ''b'' ''x.y''
       = Some (loopState, False, [Report (IntersectionError (Some ''a'') ''b'' ''a.b'')])"
proof -
  let ?cfg = "stringConfig ''ru_ru'' [] ''__DEV_ERROR__''"
  let ?ab = "\<lparr>r_namespace = ''a.b'', keyValue = [(''c'', Direct [(''ru_ru'', ''v'')])],
               externalListeners = []\<rparr> :: string registry"
  let ?settings = "\<lparr>r_namespace = ''settings'', keyValue = [], externalListeners = []\<rparr>
      :: string registry"
  let ?foo = "\<lparr>r_namespace = ''settings.foo'', keyValue = [], externalListeners = []\<rparr>
      :: string registry"
  let ?ctx = "\<lparr>v_namespace = None, v_key = ''foo'',
               visited = [(''settings'', [''foo''])], v_error = False\<rparr>"
  have "run 2 ?cfg (init ''ru_ru'') [Register ''a.b'', SetValue ''a.b'' ''c'' ''v'' ''ru_ru'']
      = Some (ownerState, [(Registry (Some ''a.b''), []), (Flag True, [EmitKey ''a.b'' ''c''])])"
    by (simp add: model_defs fuel_numeral cross_paths ownerState_def Let_def)
  with reachable.start have ro: "reachable ?cfg ownerState"
    by (rule reachable_run)
  from reachable.start crossState_run have rc: "reachable ?cfg crossState"
    by (rule reachable_run)
  have mo: "map_of (namespaces ownerState) ''a.b'' = Some ?ab"
    by (simp add: ownerState_def)
  have ms: "map_of (namespaces crossState) ''settings'' = Some ?settings"
    by (simp add: crossState_def)
  have k: "map_of (keyValue ?ab) ''c'' = Some (Direct [(''ru_ru'', ''v'')])"
    by simp
  have mf: "map_of (namespaces crossState) (''settings'' @ CHR ''.'' # ''foo'') = Some ?foo"
    by (simp add: crossState_def)
  have n: "keyCount crossState < 4"
    by (simp add: keyCount_def crossState_def)
  have bad: "\<not> testNamespacePath ''x..y'' \<or> indexOf_dot ''x..y'' = None"
    by code_simp
  have self: "''settings.foo'' = ''settings'' @ CHR ''.'' # ''foo''"
    by simp
  have cyc: "testNamespacePath ''x.y'' \<and> indexOf_dot ''x.y'' \<noteq> None
      \<and> ''x.y'' \<noteq> ''settings'' @ CHR ''.'' # ''foo'' \<and> keyCount crossState < 4"
    using n by (simp add: cross_paths)
  have ok: "testNamespacePath ''control.ok'' \<and> indexOf_dot ''control.ok'' \<noteq> None
      \<and> ''control.ok'' \<noteq> ''settings'' @ CHR ''.'' # ''foo'' \<and> keyCount crossState < 4"
    using n by (simp add: cross_paths)
  have fcyc: "\<exists>c r. findValue 4 ?cfg crossState (s_locale crossState) ''x.y'' ?ctx
      = Some (c, [Report (CircularDependencyError None ''foo'' ''settings'' ''foo'')], r)
      \<and> v_error c"
    by (simp add: fuel_numeral registryGetValue_def visitKey_def cross_paths crossState_def)
  have fok: "findValue 4 ?cfg crossState (s_locale crossState) ''control.ok'' ?ctx
      = Some (?ctx, [], None)"
    by (simp add: fuel_numeral cross_paths crossState_def)
  note t1 = namespace_key_intersection [OF ro mo, THEN conjunct1, THEN mp, OF k]
  note t2 = namespace_key_intersection [OF rc ms, THEN conjunct2, THEN mp, OF mf]
  from t1 have a: "\<exists>other key. register ownerState ''a.b.c''
      = (ownerState, None, [Report (IntersectionNsError ''a.b.c'' other key)])"
    by simp
  from t2 [THEN conjunct1]
  have b: "setValue 4 crossState ''settings'' ''foo'' ''Some Text'' ''ru_ru''
      = Some (crossState, False,
              [Report (IntersectionError (Some ''settings'') ''foo'' ''settings.foo'')])"
    by simp
  from t2 [THEN conjunct2, THEN conjunct2, THEN conjunct1, THEN mp, OF bad]
  have c: "use 4 ?cfg crossState ''settings'' ''foo'' ''x..y''
      = Some (crossState, False, [Report (KeyError None ''x..y'')])" .
  from t2 [THEN conjunct2, THEN conjunct2, THEN conjunct2, THEN conjunct1, THEN mp, OF self]
  have d: "use 4 ?cfg crossState ''settings'' ''foo'' ''settings.foo''
      = Some (crossState, False,
              [Report (CircularDependencyError None ''settings.foo'' ''settings'' ''foo'')])" .
  from t2 [THEN conjunct2, THEN conjunct2, THEN conjunct2, THEN conjunct2, THEN mp, OF cyc] fcyc
  have e: "use 4 ?cfg crossState ''settings'' ''foo'' ''x.y''
      = Some (crossState, False,
              [Report (CircularDependencyError None ''foo'' ''settings'' ''foo'')])"
    by auto
  from t2 [THEN conjunct2, THEN conjunct2, THEN conjunct2, THEN conjunct2, THEN mp, OF ok] fok
  have f: "use 4 ?cfg crossState ''settings'' ''foo'' ''control.ok''
      = Some (crossState, False,
              [Report (IntersectionError (Some ''settings'') ''foo'' ''settings.foo'')])"
    by (auto simp add: crossState_def)
  let ?cfg' = "stringConfig ''en'' [] ''?''"
  let ?a = "\<lparr>r_namespace = ''a'', keyValue = [(''b.c'', Direct [(''en'', ''v'')])],
              externalListeners = []\<rparr> :: string registry"
  let ?b = "\<lparr>r_namespace = ''a.b'', keyValue = [(''c'', Borrow ''x.y'')],
              externalListeners = [(''c'', ''x'', Listener ''a.b'' ''c'' ''y'')]\<rparr> :: string registry"
  let ?ctx' = "\<lparr>v_namespace = None, v_key = ''b'', visited = [(''a'', [''b''])], v_error = False\<rparr>"
  from reachable.start listener_cycle_commits have rl: "reachable ?cfg' loopState"
    by (rule reachable_run)
  have ml: "map_of (namespaces loopState) ''a'' = Some ?a"
    by (simp add: loopState_def)
  have mb: "map_of (namespaces loopState) (''a'' @ CHR ''.'' # ''b'') = Some ?b"
    by (simp add: loopState_def)
  have okl: "testNamespacePath ''x.y'' \<and> indexOf_dot ''x.y'' \<noteq> None
      \<and> ''x.y'' \<noteq> ''a'' @ CHR ''.'' # ''b'' \<and> keyCount loopState < 4"
    by (simp add: cycle_paths keyCount_def loopState_def)
  have fl: "\<exists>c. findValue 4 ?cfg' loopState (s_locale loopState) ''x.y'' ?ctx'
      = Some (c, [], Some (''v'', ''a'')) \<and> \<not> v_error c"
    by (simp add: fuel_numeral registryGetValue_def visitKey_def cycle_paths selectValue_single
        stringConfig_def loopState_def)
  note t3 = namespace_key_intersection [OF rl ml, THEN conjunct2, THEN mp, OF mb]
  from t3 [THEN conjunct1]
  have g: "setValue 4 loopState ''a'' ''b'' ''v'' ''en''
      = Some (loopState, False, [Report (IntersectionError (Some ''a'') ''b'' ''a.b'')])"
    by simp
  from t3 [THEN conjunct2, THEN conjunct2, THEN conjunct2, THEN conjunct2, THEN mp, OF okl] fl
  have h: "use 4 ?cfg' loopState ''a'' ''b'' ''x.y''
      = Some (loopState, False, [Report (IntersectionError (Some ''a'') ''b'' ''a.b'')])"
    by (auto simp add: loopState_def)
  from a b c d e f g h show ?thesis by (intro conjI)
qed


section \<open>Locale fallback and the first owner of a path\<close>

text \<open>The namespaces of the candidates of a full key differ from one another.\<close>

lemma splitKeyByNamespace_distinct: "distinct (map fst (splitKeyByNamespace fullKey))"
proof -
  have "map fst (splitKeyByNamespace fullKey) ! i \<noteq> map fst (splitKeyByNamespace fullKey) ! j"
    if "i < length (splitKeyByNamespace fullKey)" "j < length (splitKeyByNamespace fullKey)" "i \<noteq> j"
    for i j
  proof (cases "i < j")
    case True
    from splitKeyByNamespace_increasing [OF True that(2)] that show ?thesis by auto
  next
    case False
    with that(3) have "j < i" by simp
    from splitKeyByNamespace_increasing [OF this that(1)] that show ?thesis by auto
  qed
  then show ?thesis
    by (simp add: distinct_conv_nth)
qed

lemma candidates_split:
  "\<exists>post. splitKeyByNamespace (ns @ CHR ''.'' # k)
     = takeWhile (\<lambda>c. fst c \<noteq> ns) (splitKeyByNamespace (ns @ CHR ''.'' # k)) @ (ns, k) # post"
proof -
  let ?cs = "splitKeyByNamespace (ns @ CHR ''.'' # k)"
  let ?P = "\<lambda>c :: string \<times> string. fst c \<noteq> ns"
  have mem: "(ns, k) \<in> set ?cs" by (rule splitKeyByNamespace_own_split)
  then have "\<exists>x \<in> set ?cs. fst x = ns"
    by (rule bexI [rotated]) simp
  then have ne: "dropWhile ?P ?cs \<noteq> []"
    by (simp add: dropWhile_eq_Nil_conv)
  then obtain c rest where d: "dropWhile ?P ?cs = c # rest"
    by (cases "dropWhile ?P ?cs") auto
  from hd_dropWhile [OF ne] d have f: "fst c = ns" by simp
  have "c \<in> set (dropWhile ?P ?cs)" using d by simp
  then have "c \<in> set ?cs" by (rule set_dropWhileD)
  with f have "(ns, snd c) \<in> set ?cs" by (cases c) simp
  with mem splitKeyByNamespace_distinct [of "ns @ CHR ''.'' # k"] have "snd c = k"
    by (auto dest: eq_key_imp_eq_value)
  with f have "c = (ns, k)" by (cases c) simp
  with d have "?cs = takeWhile ?P ?cs @ (ns, k) # rest"
    by (metis takeWhile_dropWhile_id)
  then show ?thesis ..
qed

text \<open>The candidates before \<open>(ns, k)\<close> are those of the namespaces shorter than \<open>ns\<close>: a key
  is unshadowed when no registry at a shorter ancestor namespace owns the rest of the path.\<close>

lemma unshadowed_iff:
  "unshadowed st ns k \<longleftrightarrow>
     (\<forall>c \<in> set (splitKeyByNamespace (ns @ CHR ''.'' # k)). \<forall>registry.
        length (fst c) < length ns \<and> map_of (namespaces st) (fst c) = Some registry
          \<longrightarrow> map_of (keyValue registry) (snd c) = None)"
proof -
  let ?cs = "splitKeyByNamespace (ns @ CHR ''.'' # k)"
  let ?pre = "takeWhile (\<lambda>c. fst c \<noteq> ns) ?cs"
  from candidates_split [of ns k] obtain post where split: "?cs = ?pre @ (ns, k) # post" ..
  have at: "?cs ! length ?pre = (ns, k)"
    by (subst split) simp
  have len: "length ?pre < length ?cs"
    by (subst (2) split) simp
  have pre: "set ?pre = {c \<in> set ?cs. length (fst c) < length ns}"
  proof (intro set_eqI iffI)
    fix c assume "c \<in> set ?pre"
    then obtain j where j: "j < length ?pre" and c: "c = ?pre ! j"
      by (auto simp add: in_set_conv_nth)
    from j have "?cs ! j = ?pre ! j"
      by (subst split) (simp add: nth_append)
    with splitKeyByNamespace_increasing [OF j len] at c
    have "length (fst c) < length ns" by simp
    moreover from \<open>c \<in> set ?pre\<close> have "c \<in> set ?cs" by (rule set_takeWhileD [THEN conjunct1])
    ultimately show "c \<in> {c \<in> set ?cs. length (fst c) < length ns}" by simp
  next
    fix c assume "c \<in> {c \<in> set ?cs. length (fst c) < length ns}"
    then have m: "c \<in> set ?cs" and l: "length (fst c) < length ns" by simp_all
    from m obtain j where j: "j < length ?cs" and c: "c = ?cs ! j"
      by (auto simp add: in_set_conv_nth)
    have "j < length ?pre"
    proof (rule ccontr)
      assume "\<not> j < length ?pre"
      then consider "j = length ?pre" | "length ?pre < j" by linarith
      then show False
      proof cases
        case 1
        with at c l show False by simp
      next
        case 2
        from splitKeyByNamespace_increasing [OF 2 j] at c l show False by simp
      qed
    qed
    then have "?cs ! j = ?pre ! j"
      by (subst split) (simp add: nth_append)
    with c \<open>j < length ?pre\<close> show "c \<in> set ?pre" by simp
  qed
  show ?thesis
    unfolding unshadowed_def list_all_iff pre
    by (auto split: option.splits)
qed















end
